theory Spec2Isabelle
  imports Main "HOL-Library.Log_Nat" "HOL-Library.Multiset"
begin

section \<open>Strings\<close>

text \<open>
  A JavaScript string is modelled as a \<open>string\<close>, the list of the bytes of its UTF-8
  encoding: an ASCII character is one byte, every other character two to four bytes, all
  of them at least \<open>0x80\<close>. \<open>toLowerCase_char\<close> and \<open>toUpperCase_char\<close> are the case
  mappings of the ASCII characters. \<open>toLowerCase\<close> lowers the ASCII letters of a text; the
  program compares its result with ASCII extensions only, and the one character beyond ASCII
  whose lower case is an ASCII letter (the Kelvin sign, \<open>k\<close>) is in none of them.
\<close>

definition toLowerCase_char :: "char \<Rightarrow> char" where
  "toLowerCase_char c =
     (case map_of (zip ''ABCDEFGHIJKLMNOPQRSTUVWXYZ'' ''abcdefghijklmnopqrstuvwxyz'') c of
        Some l \<Rightarrow> l | None \<Rightarrow> c)"

definition toLowerCase :: "string \<Rightarrow> string" where
  "toLowerCase s = map toLowerCase_char s"

definition toUpperCase_char :: "char \<Rightarrow> char" where
  "toUpperCase_char c =
     (case map_of (zip ''abcdefghijklmnopqrstuvwxyz'' ''ABCDEFGHIJKLMNOPQRSTUVWXYZ'') c of
        Some u \<Rightarrow> u | None \<Rightarrow> c)"

text \<open>\<open>s.split(sep)\<close> for a one-character separator: never empty, \<open>''''.split('.')\<close> is \<open>['''']\<close>.\<close>

fun split :: "char \<Rightarrow> string \<Rightarrow> string list" where
  "split sep [] = [[]]"
| "split sep (c # cs) =
     (if c = sep then [] # split sep cs
      else (case split sep cs of [] \<Rightarrow> [[c]] | w # ws \<Rightarrow> (c # w) # ws))"

text \<open>The decimal digits of a natural number.\<close>

definition digit_char :: "nat \<Rightarrow> char" where
  "digit_char k = ''0123456789'' ! k"

fun digits_of :: "nat \<Rightarrow> string" where
  "digits_of n =
     (if n < 10 then [digit_char n]
      else digits_of (n div 10) @ [digit_char (n mod 10)])"

declare digits_of.simps [simp del]

section \<open>JavaScript numbers\<close>

text \<open>
  A Number is an IEEE 754 double: \<open>NaN\<close>, the two infinities, or a finite value, kept
  as the rational it denotes. Every arithmetic result is rounded to the nearest double,
  ties to even (\<open>fl\<close>). The two zeros are one value \<open>Fin 0\<close>: this program never
  divides by a zero it computed (the breakdown returns before dividing when the total is
  0) and prints both zeros alike.
\<close>

datatype jsnum = NaN | PosInf | NegInf | Fin rat

fun neg :: "jsnum \<Rightarrow> jsnum" where
  "neg NaN = NaN"
| "neg PosInf = NegInf"
| "neg NegInf = PosInf"
| "neg (Fin r) = Fin (- r)"

text \<open>\<open>ilog2 x\<close> is \<open>\<lfloor>log\<^sub>2 x\<rfloor>\<close> for \<open>x > 0\<close>, from bit lengths.\<close>

definition ilog2 :: "rat \<Rightarrow> int" where
  "ilog2 x = (if 1 \<le> x then bitlen \<lfloor>x\<rfloor> - 1 else - bitlen (\<lceil>1 / x\<rceil> - 1))"

definition round_even :: "rat \<Rightarrow> int" where
  "round_even y =
     (let f = \<lfloor>y\<rfloor>; d = y - of_int f
      in if d < 1 / 2 then f else if 1 / 2 < d then f + 1 else if even f then f else f + 1)"

text \<open>
  Rounding a positive rational: 53 significant bits, the exponent of the last bit not
  below \<open>-1074\<close> (subnormals), overflow to infinity from \<open>2\<^sup>1\<^sup>0\<^sup>2\<^sup>4\<close> on.
\<close>

definition ulp_exp :: "rat \<Rightarrow> int" where
  "ulp_exp x = max (ilog2 x - 52) (- 1074)"

definition round53 :: "rat \<Rightarrow> rat" where
  "round53 x = of_int (round_even (x / 2 powi ulp_exp x)) * 2 powi ulp_exp x"

definition fl_pos :: "rat \<Rightarrow> jsnum" where
  "fl_pos x = (if 2 ^ 1024 \<le> round53 x then PosInf else Fin (round53 x))"

definition fl :: "rat \<Rightarrow> jsnum" where
  "fl x = (if x = 0 then Fin 0 else if 0 < x then fl_pos x else neg (fl_pos (- x)))"

fun fadd :: "jsnum \<Rightarrow> jsnum \<Rightarrow> jsnum" where
  "fadd (Fin a) (Fin b) = fl (a + b)"
| "fadd NaN y = NaN"
| "fadd x NaN = NaN"
| "fadd PosInf NegInf = NaN"
| "fadd NegInf PosInf = NaN"
| "fadd PosInf y = PosInf"
| "fadd NegInf y = NegInf"
| "fadd x PosInf = PosInf"
| "fadd x NegInf = NegInf"

definition fsub :: "jsnum \<Rightarrow> jsnum \<Rightarrow> jsnum" where
  "fsub x y = fadd x (neg y)"

text \<open>The sign of a number that is not \<open>NaN\<close>; zero has sign 0.\<close>

fun sign_of :: "jsnum \<Rightarrow> int" where
  "sign_of NaN = 0"
| "sign_of PosInf = 1"
| "sign_of NegInf = - 1"
| "sign_of (Fin r) = (if 0 < r then 1 else if r < 0 then - 1 else 0)"

fun fmul :: "jsnum \<Rightarrow> jsnum \<Rightarrow> jsnum" where
  "fmul (Fin a) (Fin b) = fl (a * b)"
| "fmul NaN y = NaN"
| "fmul x NaN = NaN"
| "fmul x y =
     (if sign_of x * sign_of y = 0 then NaN
      else if 0 < sign_of x * sign_of y then PosInf else NegInf)"

fun fdiv :: "jsnum \<Rightarrow> jsnum \<Rightarrow> jsnum" where
  "fdiv (Fin a) (Fin b) =
     (if b = 0 then (if a = 0 then NaN else if 0 < a then PosInf else NegInf)
      else fl (a / b))"
| "fdiv NaN y = NaN"
| "fdiv x NaN = NaN"
| "fdiv (Fin a) y = Fin 0"
| "fdiv x (Fin b) = (if 0 \<le> sign_of x * sign_of (Fin b) then x else neg x)"
| "fdiv x y = NaN"

definition isNaN :: "jsnum \<Rightarrow> bool" where
  "isNaN x = (x = NaN)"

text \<open>\<open>x < y\<close>, \<open>x > y\<close> and \<open>x <= y\<close> on Numbers: false whenever an operand is
  \<open>NaN\<close>.\<close>

fun lt :: "jsnum \<Rightarrow> jsnum \<Rightarrow> bool" where
  "lt (Fin a) (Fin b) = (a < b)"
| "lt NaN y = False"
| "lt x NaN = False"
| "lt x NegInf = False"
| "lt PosInf y = False"
| "lt x y = True"

definition gt :: "jsnum \<Rightarrow> jsnum \<Rightarrow> bool" where
  "gt x y = lt y x"

fun le_num :: "jsnum \<Rightarrow> jsnum \<Rightarrow> bool" where
  "le_num (Fin a) (Fin b) = (a \<le> b)"
| "le_num NaN y = False"
| "le_num x NaN = False"
| "le_num NegInf y = True"
| "le_num x PosInf = True"
| "le_num x y = False"

text \<open>\<open>x === y\<close> on Numbers.\<close>

definition strict_eq :: "jsnum \<Rightarrow> jsnum \<Rightarrow> bool" where
  "strict_eq x y = (x \<noteq> NaN \<and> x = y)"

section \<open>Numbers and strings\<close>

definition is_digit :: "char \<Rightarrow> bool" where
  "is_digit c = (c \<in> set ''0123456789'')"

definition digit_val :: "char \<Rightarrow> nat" where
  "digit_val c = of_char c - 48"

definition dec_val :: "string \<Rightarrow> nat" where
  "dec_val ds = foldl (\<lambda>a c. 10 * a + digit_val c) 0 ds"

text \<open>
  The white space and line terminators \<open>Number\<close> trims (\<open>StrWhiteSpaceChar\<close>), by the
  length of their encoding: the ASCII ones (tab, line feed, vertical tab, form feed,
  carriage return, space); the no-break space \<open>U+00A0\<close>; and \<open>U+1680\<close>,
  \<open>U+2000\<close> to \<open>U+200A\<close>, \<open>U+2028\<close>, \<open>U+2029\<close>, \<open>U+202F\<close>, \<open>U+205F\<close>,
  \<open>U+3000\<close> and \<open>U+FEFF\<close>.
\<close>

definition StrWhiteSpaceChar :: "char \<Rightarrow> bool" where
  "StrWhiteSpaceChar c = (c \<in> set [CHR 0x09, CHR 0x0A, CHR 0x0B, CHR 0x0C, CHR 0x0D, CHR 0x20])"

definition StrWhiteSpaceChar2 :: "char \<Rightarrow> char \<Rightarrow> bool" where
  "StrWhiteSpaceChar2 a b = (a = CHR 0xC2 \<and> b = CHR 0xA0)"

definition StrWhiteSpaceChar3 :: "char \<Rightarrow> char \<Rightarrow> char \<Rightarrow> bool" where
  "StrWhiteSpaceChar3 a b c =
     (a = CHR 0xE1 \<and> b = CHR 0x9A \<and> c = CHR 0x80 \<or>
      a = CHR 0xE2 \<and> b = CHR 0x80 \<and>
        c \<in> set [CHR 0x80, CHR 0x81, CHR 0x82, CHR 0x83, CHR 0x84, CHR 0x85, CHR 0x86,
                  CHR 0x87, CHR 0x88, CHR 0x89, CHR 0x8A, CHR 0xA8, CHR 0xA9, CHR 0xAF] \<or>
      a = CHR 0xE2 \<and> b = CHR 0x81 \<and> c = CHR 0x9F \<or>
      a = CHR 0xE3 \<and> b = CHR 0x80 \<and> c = CHR 0x80 \<or>
      a = CHR 0xEF \<and> b = CHR 0xBB \<and> c = CHR 0xBF)"

text \<open>The text without the white space it starts with.\<close>

fun trimStart :: "string \<Rightarrow> string" where
  "trimStart (a # b # c # s) =
     (if StrWhiteSpaceChar a then trimStart (b # c # s)
      else if StrWhiteSpaceChar2 a b then trimStart (c # s)
      else if StrWhiteSpaceChar3 a b c then trimStart s
      else a # b # c # s)"
| "trimStart [a, b] =
     (if StrWhiteSpaceChar a then trimStart [b]
      else if StrWhiteSpaceChar2 a b then []
      else [a, b])"
| "trimStart [a] = (if StrWhiteSpaceChar a then [] else [a])"
| "trimStart [] = []"

text \<open>The same from the end, on the reversed text.\<close>

fun trimEnd_rev :: "string \<Rightarrow> string" where
  "trimEnd_rev (c # b # a # s) =
     (if StrWhiteSpaceChar c then trimEnd_rev (b # a # s)
      else if StrWhiteSpaceChar2 b c then trimEnd_rev (a # s)
      else if StrWhiteSpaceChar3 a b c then trimEnd_rev s
      else c # b # a # s)"
| "trimEnd_rev [c, b] =
     (if StrWhiteSpaceChar c then trimEnd_rev [b]
      else if StrWhiteSpaceChar2 b c then []
      else [c, b])"
| "trimEnd_rev [c] = (if StrWhiteSpaceChar c then [] else [c])"
| "trimEnd_rev [] = []"

definition trim :: "string \<Rightarrow> string" where
  "trim s = rev (trimEnd_rev (rev (trimStart s)))"

text \<open>\<open>SignedInteger\<close>: an optional sign and at least one digit, nothing after.\<close>

definition all_digits :: "string \<Rightarrow> bool" where
  "all_digits ds = (ds \<noteq> [] \<and> list_all is_digit ds)"

definition SignedInteger :: "string \<Rightarrow> int option" where
  "SignedInteger r =
     (case r of
        [] \<Rightarrow> None
      | c # ds \<Rightarrow>
          if c = CHR ''+'' then (if all_digits ds then Some (int (dec_val ds)) else None)
          else if c = CHR ''-'' then (if all_digits ds then Some (- int (dec_val ds)) else None)
          else if all_digits r then Some (int (dec_val r)) else None)"

text \<open>The optional \<open>ExponentPart\<close> that ends a decimal literal: its value, 0 when absent.\<close>

definition ExponentPart :: "string \<Rightarrow> int option" where
  "ExponentPart r =
     (case r of
        [] \<Rightarrow> Some 0
      | c # r' \<Rightarrow> if c = CHR ''e'' \<or> c = CHR ''E'' then SignedInteger r' else None)"

text \<open>
  \<open>StrUnsignedDecimalLiteral\<close> without \<open>Infinity\<close>: digits, optionally a point and
  digits, optionally an exponent; or a point and digits. The result is the literal's
  mathematical value, \<open>None\<close> when the text is no literal.
\<close>

definition StrUnsignedDecimalLiteral :: "string \<Rightarrow> rat option" where
  "StrUnsignedDecimalLiteral s =
     (let ip = takeWhile is_digit s; r1 = dropWhile is_digit s
      in case r1 of
           [] \<Rightarrow> if ip = [] then None else Some (of_nat (dec_val ip))
         | c # r2 \<Rightarrow>
             if c = CHR ''.'' then
               (let fp = takeWhile is_digit r2; r3 = dropWhile is_digit r2
                in if ip = [] \<and> fp = [] then None
                   else map_option
                          (\<lambda>e. of_nat (dec_val (ip @ fp)) * 10 powi (e - int (length fp)))
                          (ExponentPart r3))
             else if ip = [] then None
             else map_option (\<lambda>e. of_nat (dec_val ip) * 10 powi e) (ExponentPart r1))"

text \<open>\<open>NonDecimalIntegerLiteral\<close>: \<open>0x\<close>, \<open>0o\<close>, \<open>0b\<close> and digits of that base.\<close>

definition base_digit :: "char \<Rightarrow> nat option" where
  "base_digit c =
     map_of (zip ''0123456789abcdefABCDEF''
                 [0, 1, 2, 3, 4, 5, 6, 7, 8, 9, 10, 11, 12, 13, 14, 15, 10, 11, 12, 13, 14, 15]) c"

definition base_val :: "nat \<Rightarrow> string \<Rightarrow> nat option" where
  "base_val b ds =
     (if ds \<noteq> [] \<and> list_all (\<lambda>c. case base_digit c of None \<Rightarrow> False | Some d \<Rightarrow> d < b) ds
      then Some (foldl (\<lambda>a c. b * a + the (base_digit c)) 0 ds)
      else None)"

definition NonDecimalIntegerLiteral :: "string \<Rightarrow> nat option" where
  "NonDecimalIntegerLiteral s =
     (case s of
        z # p # ds \<Rightarrow>
          if z \<noteq> CHR ''0'' then None
          else if p = CHR ''x'' \<or> p = CHR ''X'' then base_val 16 ds
          else if p = CHR ''o'' \<or> p = CHR ''O'' then base_val 8 ds
          else if p = CHR ''b'' \<or> p = CHR ''B'' then base_val 2 ds
          else None
      | _ \<Rightarrow> None)"

definition unsigned_number :: "string \<Rightarrow> jsnum" where
  "unsigned_number s =
     (if s = ''Infinity'' then PosInf
      else case StrUnsignedDecimalLiteral s of None \<Rightarrow> NaN | Some mv \<Rightarrow> fl mv)"

text \<open>
  \<open>Number(s)\<close> for a string (\<open>StringToNumber\<close>): trim, the empty text is 0, a text that
  is no numeric literal is \<open>NaN\<close>, otherwise the literal's value rounded to a double.
\<close>

definition Number :: "string \<Rightarrow> jsnum" where
  "Number s =
     (let t = trim s
      in if t = [] then Fin 0
         else case NonDecimalIntegerLiteral t of
                Some n \<Rightarrow> fl (of_nat n)
              | None \<Rightarrow>
                  (case t of
                     [] \<Rightarrow> Fin 0
                   | c # r \<Rightarrow>
                       if c = CHR ''-'' then neg (unsigned_number r)
                       else if c = CHR ''+'' then unsigned_number r
                       else unsigned_number t))"

text \<open>\<open>ilog10 x\<close> is \<open>\<lfloor>log\<^sub>1\<^sub>0 x\<rfloor>\<close> for \<open>x > 0\<close>.\<close>

definition ilog10 :: "rat \<Rightarrow> int" where
  "ilog10 x =
     (if 1 \<le> x then int (floorlog 10 (nat \<lfloor>x\<rfloor>)) - 1
      else - int (floorlog 10 (nat (\<lceil>1 / x\<rceil> - 1))))"

text \<open>
  \<open>Number::toString\<close> looks for integers \<open>n\<close>, \<open>k\<close>, \<open>s\<close> with \<open>k\<close> as small as
  possible, \<open>10\<^sup>k\<^sup>-\<^sup>1 \<le> s < 10\<^sup>k\<close> and \<open>s \<times> 10\<^sup>n\<^sup>-\<^sup>k\<close> rounding to the number; among
  several \<open>s\<close> the closest one. \<open>candidates x k\<close> lists the pairs \<open>(s, n)\<close> for one
  \<open>k\<close>, the closest first.
\<close>

definition candidates :: "rat \<Rightarrow> nat \<Rightarrow> (nat \<times> int) list" where
  "candidates x k =
     (let n0 = ilog10 x + 1;
          cs = concat (map (\<lambda>n. map (\<lambda>s. (s, n))
                 [nat \<lfloor>x / 10 powi (n - int k)\<rfloor>, nat \<lceil>x / 10 powi (n - int k)\<rceil>]) [n0, n0 + 1]);
          ok = filter (\<lambda>(s, n). 10 ^ (k - 1) \<le> s \<and> s < 10 ^ k \<and>
                 fl (of_nat s * 10 powi (n - int k)) = Fin x) cs
      in filter (\<lambda>(s, n). list_all (\<lambda>(s', n').
              \<bar>of_nat s * 10 powi (n - int k) - x\<bar> \<le> \<bar>of_nat s' * 10 powi (n' - int k) - x\<bar>) ok) ok)"

fun first_candidate :: "rat \<Rightarrow> nat list \<Rightarrow> (nat \<times> int) option" where
  "first_candidate x [] = None"
| "first_candidate x (k # ks) =
     (case candidates x k of [] \<Rightarrow> first_candidate x ks | c # cs \<Rightarrow> Some c)"

text \<open>The digits of \<open>s\<close> laid out for the exponent \<open>n\<close>, plain or with an exponent part.\<close>

definition layout :: "nat \<Rightarrow> int \<Rightarrow> string" where
  "layout s n =
     (let ds = digits_of s; k = int (length ds)
      in if k \<le> n \<and> n \<le> 21 then ds @ replicate (nat (n - k)) (CHR ''0'')
         else if 0 < n \<and> n \<le> 21 then take (nat n) ds @ ''.'' @ drop (nat n) ds
         else if - 6 < n \<and> n \<le> 0 then ''0.'' @ replicate (nat (- n)) (CHR ''0'') @ ds
         else (if k = 1 then ds else take 1 ds @ ''.'' @ drop 1 ds) @ ''e'' @
              (if n - 1 < 0 then ''-'' else ''+'') @ digits_of (nat \<bar>n - 1\<bar>))"

text \<open>
  \<open>Number::toString\<close> (\<open>String(x)\<close>, a template literal). Seventeen digits always
  suffice for a double; a \<open>Fin\<close> that is no double has no digits and prints as the empty
  text.
\<close>

definition toString_pos :: "rat \<Rightarrow> string" where
  "toString_pos x =
     (case first_candidate x [1, 2, 3, 4, 5, 6, 7, 8, 9, 10, 11, 12, 13, 14, 15, 16, 17] of
        None \<Rightarrow> []
      | Some (s, n) \<Rightarrow> layout s n)"

fun NumberToString :: "jsnum \<Rightarrow> string" where
  "NumberToString NaN = ''NaN''"
| "NumberToString PosInf = ''Infinity''"
| "NumberToString NegInf = ''-Infinity''"
| "NumberToString (Fin r) =
     (if r = 0 then ''0'' else if r < 0 then ''-'' @ toString_pos (- r) else toString_pos r)"

text \<open>
  \<open>x.toFixed(f)\<close>: not finite or at least \<open>10\<^sup>2\<^sup>1\<close> prints as \<open>String(x)\<close>; otherwise
  the integer \<open>n\<close> with \<open>n / 10\<^sup>f\<close> closest to \<open>x\<close> (the larger on a tie), padded with
  zeros to more than \<open>f\<close> digits, the point before the last \<open>f\<close>.
\<close>

definition toFixed_digits :: "nat \<Rightarrow> rat \<Rightarrow> string" where
  "toFixed_digits f a =
     (let n = nat \<lfloor>a * 10 ^ f + 1 / 2\<rfloor>;
          m = digits_of n;
          m' = (if length m \<le> f then replicate (f + 1 - length m) (CHR ''0'') @ m else m)
      in if f = 0 then m
         else take (length m' - f) m' @ ''.'' @ drop (length m' - f) m')"

fun toFixed :: "nat \<Rightarrow> jsnum \<Rightarrow> string" where
  "toFixed f (Fin r) =
     (if r < 0
      then ''-'' @ (if 10 ^ 21 \<le> - r then NumberToString (Fin (- r)) else toFixed_digits f (- r))
      else (if 10 ^ 21 \<le> r then NumberToString (Fin r) else toFixed_digits f r))"
| "toFixed f x = NumberToString x"

text \<open>
  \<open>x.toLocaleString()\<close> depends on the host's locale, so the budget view takes it from
  the host. \<open>toLocaleString_enUS\<close> is the \<open>en-US\<close> format: the digits are those of
  the shortest decimal that reads back as the number (the digits \<open>String(x)\<close> prints),
  rounded to at most three fraction digits, a tie going away from zero; trailing zeros
  are dropped and the integer part is written in groups of three separated by commas.
\<close>

definition shortest_decimal :: "rat \<Rightarrow> rat" where
  "shortest_decimal x =
     (case first_candidate x [1, 2, 3, 4, 5, 6, 7, 8, 9, 10, 11, 12, 13, 14, 15, 16, 17] of
        None \<Rightarrow> x
      | Some (s, n) \<Rightarrow> of_nat s * 10 powi (n - int (length (digits_of s))))"

fun group_rev :: "string \<Rightarrow> string" where
  "group_rev (a # b # c # d # ds) = a # b # c # CHR '','' # group_rev (d # ds)"
| "group_rev ds = ds"

definition grouped :: "string \<Rightarrow> string" where
  "grouped ds = rev (group_rev (rev ds))"

definition enUS_pos :: "rat \<Rightarrow> string" where
  "enUS_pos a =
     (let n = nat \<lfloor>shortest_decimal a * 1000 + 1 / 2\<rfloor>;
          ip = grouped (digits_of (n div 1000));
          f = n mod 1000;
          fp = replicate (3 - length (digits_of f)) (CHR ''0'') @ digits_of f
      in if f = 0 then ip
         else ip @ ''.'' @ rev (dropWhile (\<lambda>c. c = CHR ''0'') (rev fp)))"

fun toLocaleString_enUS :: "jsnum \<Rightarrow> string" where
  "toLocaleString_enUS NaN = ''NaN''"
| "toLocaleString_enUS PosInf = [CHR 0xE2, CHR 0x88, CHR 0x9E]"
| "toLocaleString_enUS NegInf = [CHR ''-'', CHR 0xE2, CHR 0x88, CHR 0x9E]"
| "toLocaleString_enUS (Fin r) = (if r < 0 then ''-'' @ enUS_pos (- r) else enUS_pos r)"

section \<open>The budget view\<close>

text \<open>
  What the view takes from the host: the locale's \<open>toLocaleString\<close> for Numbers, and
  \<open>toUpperCase\<close> for one character beyond ASCII (the Unicode case tables).
\<close>

record host =
  toLocaleString :: "jsnum \<Rightarrow> string"
  toUpperCase :: "string \<Rightarrow> string"

text \<open>
  \<open>parseRM(val)\<close> for a string: the falsy empty string is 0; otherwise every character
  but the digits and the point is removed (\<open>replace(/[^\d.]/g, '')\<close>) and the rest is
  handed to \<open>Number\<close>.
\<close>

definition strip_currency :: "string \<Rightarrow> string" where
  "strip_currency val = filter (\<lambda>c. is_digit c \<or> c = CHR ''.'') val"

definition parseRM :: "string \<Rightarrow> jsnum" where
  "parseRM val = (if val = [] then Fin 0 else Number (strip_currency val))"

definition nameMap :: "(string \<times> string) list" where
  "nameMap =
     [(''talent'', ''Talent''),
      (''location'', ''Location''),
      (''propsSet'', ''Props & Set''),
      (''wardrobeMakeup'', ''Wardrobe & Makeup''),
      (''sfxVfx'', ''SFX & VFX''),
      (''crew'', ''Crew''),
      (''miscellaneous'', ''Miscellaneous'')]"

definition is_upper :: "char \<Rightarrow> bool" where
  "is_upper c = (c \<in> set ''ABCDEFGHIJKLMNOPQRSTUVWXYZ'')"

text \<open>\<open>replace(/([A-Z])/g, ' $1')\<close>: a space before every capital letter.\<close>

definition space_capitals :: "string \<Rightarrow> string" where
  "space_capitals s = concat (map (\<lambda>c. if is_upper c then [CHR '' '', c] else [c]) s)"

text \<open>
  \<open>replace(/^./, s => s.toUpperCase())\<close>: the first UTF-16 code unit in upper case,
  unless it is a line terminator (line feed, carriage return, \<open>U+2028\<close>, \<open>U+2029\<close>),
  which \<open>.\<close> does not match. An ASCII character is mapped here; a character of two or
  three bytes is one code unit and is handed to the host; a character of four bytes
  starts with a surrogate, which has no upper case.
\<close>

definition capitalize :: "(string \<Rightarrow> string) \<Rightarrow> string \<Rightarrow> string" where
  "capitalize upper s =
     (case s of
        [] \<Rightarrow> []
      | c # cs \<Rightarrow>
          if c = CHR 0x0A \<or> c = CHR 0x0D then s
          else if (of_char c :: nat) < 0x80 then toUpperCase_char c # cs
          else if (of_char c :: nat) < 0xE0 then upper (take 2 s) @ drop 2 s
          else if (of_char c :: nat) < 0xF0 then
            (if take 3 s = [CHR 0xE2, CHR 0x80, CHR 0xA8] \<or> take 3 s = [CHR 0xE2, CHR 0x80, CHR 0xA9]
             then s else upper (take 3 s) @ drop 3 s)
          else s)"

text \<open>
  What \<open>obj[key]\<close> reads from an object literal whose values are strings: the string of
  an own property, or else what the literal inherits from \<open>Object.prototype\<close> under that
  name (a function; the prototype itself under \<open>__proto__\<close>), or nothing. Inherited
  values are objects: truthy, and \<open>===\<close> only to themselves.
\<close>

datatype property = Text string | Inherited string

definition Object_prototype :: "string list" where
  "Object_prototype =
     [''constructor'', ''__defineGetter__'', ''__defineSetter__'', ''hasOwnProperty'',
      ''__lookupGetter__'', ''__lookupSetter__'', ''isPrototypeOf'', ''propertyIsEnumerable'',
      ''toString'', ''valueOf'', ''__proto__'', ''toLocaleString'']"

definition lookup :: "(string \<times> string) list \<Rightarrow> string \<Rightarrow> property option" where
  "lookup obj key =
     (case map_of obj key of
        Some v \<Rightarrow> Some (Text v)
      | None \<Rightarrow> if key \<in> set Object_prototype then Some (Inherited key) else None)"

text \<open>
  \<open>formatCategoryName\<close>: what \<open>nameMap[key]\<close> reads (never falsy), otherwise the key
  with its capitals spaced and its first character raised.
\<close>

definition formatCategoryName :: "host \<Rightarrow> string \<Rightarrow> property" where
  "formatCategoryName h key =
     (case lookup nameMap key of
        Some n \<Rightarrow> n
      | None \<Rightarrow> Text (capitalize (toUpperCase h) (space_capitals key)))"

definition categoryColors :: "(string \<times> string) list" where
  "categoryColors =
     [(''talent'', ''#00C6FB''),
      (''location'', ''#FFD233''),
      (''propsSet'', ''#3DD65B''),
      (''wardrobeMakeup'', ''#A259FF''),
      (''sfxVfx'', ''#FF6B6B''),
      (''crew'', ''#FF9900''),
      (''miscellaneous'', ''#FFB300'')]"

text \<open>One bar of the budget breakdown.\<close>

record breakdown_item =
  name :: property
  amount :: string
  percent :: jsnum
  color :: property

text \<open>
  A project, as far as the budget view reads it. The budget object
  \<open>project.scriptBreakdown?.budget\<close> is the list of its entries in property order
  (\<open>Object.entries\<close>), \<open>None\<close> when \<open>scriptBreakdown\<close> or its \<open>budget\<close> is missing;
  \<open>analysis_budget\<close> is \<open>project.analysis_data?.script_breakdown?.budget\<close>.
\<close>

record Project =
  title :: string
  budget :: "(string \<times> string) list option"
  analysis_budget :: "(string \<rightharpoonup> string) option"

text \<open>
  \<open>xs.sort(cmp)\<close>: a stable sort. An element moves behind another only when the
  comparator's result for the pair is greater than 0; \<open>NaN\<close> counts as 0.
\<close>

fun insert_by :: "('a \<Rightarrow> 'a \<Rightarrow> jsnum) \<Rightarrow> 'a \<Rightarrow> 'a list \<Rightarrow> 'a list" where
  "insert_by cmp x [] = [x]"
| "insert_by cmp x (y # ys) =
     (if gt (cmp x y) (Fin 0) then y # insert_by cmp x ys else x # y # ys)"

fun sort_by :: "('a \<Rightarrow> 'a \<Rightarrow> jsnum) \<Rightarrow> 'a list \<Rightarrow> 'a list" where
  "sort_by cmp [] = []"
| "sort_by cmp (x # xs) = insert_by cmp x (sort_by cmp xs)"

text \<open>\<open>Object.values(budgetObj).map(v => parseRM(v)).reduce((a, b) => a + b, 0)\<close>\<close>

definition budget_total :: "(string \<times> string) list \<Rightarrow> jsnum" where
  "budget_total budgetObj = foldl fadd (Fin 0) (map parseRM (map snd budgetObj))"

text \<open>The item the breakdown makes of one entry, given the total.\<close>

definition breakdown_entry :: "host \<Rightarrow> jsnum \<Rightarrow> string \<times> string \<Rightarrow> breakdown_item" where
  "breakdown_entry h total' kv =
     (let amount' = parseRM (snd kv)
      in \<lparr>name = formatCategoryName h (fst kv),
          amount = ''RM '' @ toLocaleString h amount',
          percent = Number (toFixed 1 (fmul (fdiv amount' total') (Fin 100))),
          color = (case lookup categoryColors (fst kv) of Some c \<Rightarrow> c | None \<Rightarrow> Text ''#888888'')\<rparr>)"

text \<open>The getter of the computed \<open>breakdown\<close>, applied to the selected project.\<close>

definition breakdown :: "host \<Rightarrow> Project option \<Rightarrow> breakdown_item list" where
  "breakdown h selectedProject =
     (case selectedProject of
        None \<Rightarrow> []
      | Some project \<Rightarrow>
          (case budget project of
             None \<Rightarrow> []
           | Some budgetObj \<Rightarrow>
               (let total' = budget_total budgetObj
                in if strict_eq total' (Fin 0) then []
                   else sort_by (\<lambda>a b. fsub (percent b) (percent a))
                          (filter (\<lambda>item. gt (percent item) (Fin 0))
                             (map (breakdown_entry h total') budgetObj)))))"

text \<open>
  The state of the budget editor: the edited bar, the text of the amount field (a Number
  the field holds is its \<open>String\<close> text, which \<open>Number\<close> reads back), the selected
  project, and the alerts shown so far.
\<close>

record budget_view =
  editingCategory :: "breakdown_item option"
  editAmount :: string
  selectedProject :: "Project option"
  alerts :: "string list"

definition editBudgetCategory :: "breakdown_item \<Rightarrow> budget_view \<Rightarrow> budget_view" where
  "editBudgetCategory category st =
     st\<lparr>editingCategory := Some category,
        editAmount := NumberToString (parseRM (amount category))\<rparr>"

text \<open>\<open>obj[key] = v\<close> on the entry list: in place for a key that is there, appended
  otherwise.\<close>

fun assign :: "string \<Rightarrow> string \<Rightarrow> (string \<times> string) list \<Rightarrow> (string \<times> string) list" where
  "assign k v [] = [(k, v)]"
| "assign k v (p # ps) = (if fst p = k then (k, v) # ps else p # assign k v ps)"

text \<open>
  \<open>obj[key] = v\<close> on the analysis data's budget object, of which only the own
  properties are kept: the name \<open>__proto__\<close>, when it is not an own property, reaches
  the prototype's setter, which ignores a string.
\<close>

definition assign_own :: "string \<Rightarrow> string \<Rightarrow> (string \<rightharpoonup> string) \<Rightarrow> (string \<rightharpoonup> string)" where
  "assign_own k v obj = (if k = ''__proto__'' \<and> obj k = None then obj else obj(k \<mapsto> v))"

text \<open>
  \<open>saveBudgetEdit\<close>. It returns at once without an edited bar or a project; alerts and
  returns on an amount that is \<open>NaN\<close> or negative; otherwise writes \<open>RM\<close> and the amount
  under the first key whose display name is the bar's name, when there is one and it is
  not the empty (falsy) key, in the budget object and, when present, in the analysis
  data's; and closes the editor.
\<close>

definition saveBudgetEdit :: "host \<Rightarrow> budget_view \<Rightarrow> budget_view" where
  "saveBudgetEdit h st =
     (case (editingCategory st, selectedProject st) of
        (Some category, Some project) \<Rightarrow>
          (let newAmount = Number (editAmount st)
           in if isNaN newAmount \<or> lt newAmount (Fin 0)
              then st\<lparr>alerts := alerts st @ [''Please enter a valid amount'']\<rparr>
              else
                (let project' =
                       (case budget project of
                          None \<Rightarrow> project
                        | Some budgetObj \<Rightarrow>
                            (case List.find (\<lambda>key. formatCategoryName h key = name category)
                                    (map fst budgetObj) of
                               None \<Rightarrow> project
                             | Some categoryKey \<Rightarrow>
                                 if categoryKey = [] then project
                                 else project
                                   \<lparr>budget :=
                                      Some (assign categoryKey (''RM '' @ NumberToString newAmount)
                                              budgetObj),
                                    analysis_budget :=
                                      map_option
                                        (assign_own categoryKey (''RM '' @ NumberToString newAmount))
                                        (analysis_budget project)\<rparr>))
                 in st\<lparr>selectedProject := Some project',
                       editingCategory := None,
                       editAmount := []\<rparr>))
      | _ \<Rightarrow> st)"

definition cancelBudgetEdit :: "budget_view \<Rightarrow> budget_view" where
  "cancelBudgetEdit st = st\<lparr>editingCategory := None, editAmount := []\<rparr>"

text \<open>
  Reading \<open>breakdown.value\<close> in a state of the view: the getter reads the selected
  project and assigns nothing (\<open>Object.values\<close>, \<open>Object.entries\<close>, \<open>map\<close> and
  \<open>filter\<close> build new arrays, and \<open>sort\<close> sorts the array \<open>filter\<close> made), so the
  state it leaves is the state it found.
\<close>

definition compute_breakdown :: "host \<Rightarrow> budget_view \<Rightarrow> breakdown_item list \<times> budget_view" where
  "compute_breakdown h st = (breakdown h (selectedProject st), st)"

text \<open>Concrete values used in the examples below.\<close>

definition spec_budget :: "(string \<times> string) list" where
  "spec_budget =
     [(''talent'', ''RM 400''), (''crew'', ''RM 900''),
      (''propsSet'', ''RM 530''), (''location'', ''RM 300'')]"

definition project_of :: "(string \<times> string) list \<Rightarrow> Project" where
  "project_of b = \<lparr>title = ''Demo'', budget = Some b, analysis_budget = None\<rparr>"

text \<open>
  The host of the examples prints Numbers in the \<open>en-US\<close> locale. The keys of the
  examples are ASCII, so no character is handed to its \<open>toUpperCase\<close>, which is left
  as the identity.
\<close>

definition en_US :: host where
  "en_US = \<lparr>toLocaleString = toLocaleString_enUS, toUpperCase = (\<lambda>s. s)\<rparr>"

definition tie_budget :: "(string \<times> string) list" where
  "tie_budget = [(''crew'', ''RM 100''), (''propsSet'', ''RM 100'')]"


definition part_budget :: "(string \<times> string) list" where
  "part_budget = [(''crew'', ''RM 100''), (''talent'', ''RM 0'')]"


definition dots_budget :: "(string \<times> string) list" where
  "dots_budget = [(''talent'', ''RM 400''), (''crew'', ''TBD.'')]"

definition crew_bar :: breakdown_item where
  "crew_bar =
     \<lparr>name = Text ''Crew'', amount = ''RM 900'', percent = Number ''42.3'',
      color = Text ''#FF9900''\<rparr>"


definition edit_state :: "breakdown_item \<Rightarrow> string \<Rightarrow> budget_view" where
  "edit_state bar text =
     \<lparr>editingCategory = Some bar, editAmount = text,
      selectedProject = Some (project_of spec_budget), alerts = []\<rparr>"

definition view_of :: "(string \<times> string) list \<Rightarrow> budget_view" where
  "view_of b =
     \<lparr>editingCategory = None, editAmount = [], selectedProject = Some (project_of b),
      alerts = []\<rparr>"

section \<open>The auth store (\<open>useAuthStore\<close>)\<close>

text \<open>
  What a property of a user object holds: a value or \<open>undefined\<close>. An optional property
  that is absent reads as \<open>undefined\<close>, and \<open>JSON.stringify\<close> leaves out both alike.
\<close>

datatype 'a field = Undefined | Value 'a

record User =
  user_id :: "string field"
  username :: "string field"
  email :: "string field"
  full_name :: "string field"
  oauth_provider :: "string field"
  is_verified :: "bool field"
  profile_picture_url :: "string field"
  created_at :: "string field"

text \<open>
  \<open>Partial<User>\<close>: each key is absent (\<open>None\<close>) or present, and a key that is present
  may hold \<open>undefined\<close>.
\<close>

record PartialUser =
  p_user_id :: "string field option"
  p_username :: "string field option"
  p_email :: "string field option"
  p_full_name :: "string field option"
  p_oauth_provider :: "string field option"
  p_is_verified :: "bool field option"
  p_profile_picture_url :: "string field option"
  p_created_at :: "string field option"

text \<open>
  The store's state: the two refs and the browser's \<open>localStorage\<close>. \<open>null\<close> is
  \<open>None\<close>. \<open>JSON.stringify\<close> is the platform's; the actions take it as the parameter
  \<open>stringify\<close>.
\<close>

record auth_store =
  accessToken :: "string option"
  user :: "User option"
  localStorage :: "string \<rightharpoonup> string"

text \<open>\<open>isAuthenticated = computed(() => !!accessToken.value)\<close>: \<open>null\<close> and the empty
  string are the falsy values of \<open>string | null\<close>.\<close>

definition isAuthenticated :: "auth_store \<Rightarrow> bool" where
  "isAuthenticated st = (case accessToken st of None \<Rightarrow> False | Some t \<Rightarrow> t \<noteq> [])"

definition currentUser :: "auth_store \<Rightarrow> User option" where
  "currentUser st = user st"

definition setAuth :: "(User \<Rightarrow> string) \<Rightarrow> string \<Rightarrow> User \<Rightarrow> auth_store \<Rightarrow> auth_store" where
  "setAuth stringify token userData st =
     st\<lparr>accessToken := Some token,
        user := Some userData,
        localStorage := (localStorage st)
          (''access_token'' \<mapsto> token, ''user'' \<mapsto> stringify userData, ''isLoggedIn'' \<mapsto> ''true'')\<rparr>"

definition logout :: "auth_store \<Rightarrow> auth_store" where
  "logout st =
     st\<lparr>accessToken := None,
        user := None,
        localStorage := (localStorage st)
          (''access_token'' := None, ''user'' := None, ''isLoggedIn'' := None)\<rparr>"

text \<open>
  \<open>{ ...user.value, ...userData }\<close>: every key present in \<open>userData\<close> overrides, also
  one that holds \<open>undefined\<close>.
\<close>

definition merge_user :: "User \<Rightarrow> PartialUser \<Rightarrow> User" where
  "merge_user u p =
     \<lparr>user_id = (case p_user_id p of Some v \<Rightarrow> v | None \<Rightarrow> user_id u),
      username = (case p_username p of Some v \<Rightarrow> v | None \<Rightarrow> username u),
      email = (case p_email p of Some v \<Rightarrow> v | None \<Rightarrow> email u),
      full_name = (case p_full_name p of Some v \<Rightarrow> v | None \<Rightarrow> full_name u),
      oauth_provider = (case p_oauth_provider p of Some v \<Rightarrow> v | None \<Rightarrow> oauth_provider u),
      is_verified = (case p_is_verified p of Some v \<Rightarrow> v | None \<Rightarrow> is_verified u),
      profile_picture_url =
        (case p_profile_picture_url p of Some v \<Rightarrow> v | None \<Rightarrow> profile_picture_url u),
      created_at = (case p_created_at p of Some v \<Rightarrow> v | None \<Rightarrow> created_at u)\<rparr>"

definition updateUser :: "(User \<Rightarrow> string) \<Rightarrow> PartialUser \<Rightarrow> auth_store \<Rightarrow> auth_store" where
  "updateUser stringify userData st =
     (case user st of
        None \<Rightarrow> st
      | Some u \<Rightarrow>
          st\<lparr>user := Some (merge_user u userData),
             localStorage := (localStorage st)(''user'' \<mapsto> stringify (merge_user u userData))\<rparr>)"

text \<open>\<open>getAuthHeaders\<close>: the header list, with \<open>Authorization\<close> when the token is truthy.\<close>

definition getAuthHeaders :: "auth_store \<Rightarrow> (string \<times> string) list" where
  "getAuthHeaders st =
     (if isAuthenticated st
      then [(''Authorization'', ''Bearer '' @ the (accessToken st)),
            (''Content-Type'', ''application/json'')]
      else [(''Content-Type'', ''application/json'')])"

text \<open>Concrete values used in the examples below.\<close>

definition demo_user :: User where
  "demo_user =
     \<lparr>user_id = Value ''u1'', username = Value ''amir'', email = Value ''amir@example.com'',
      full_name = Undefined, oauth_provider = Undefined, is_verified = Value True,
      profile_picture_url = Undefined, created_at = Value ''2024-01-01''\<rparr>"

definition empty_store :: auth_store where
  "empty_store = \<lparr>accessToken = None, user = None, localStorage = Map.empty\<rparr>"

definition demo_stringify :: "User \<Rightarrow> string" where
  "demo_stringify u =
     (case username u of Undefined \<Rightarrow> ''{}'' | Value n \<Rightarrow> ''{\"username\":\"'' @ n @ ''\"}'')"

section \<open>The chat panel's \<open>uploadFile\<close>\<close>

text \<open>A browser \<open>File\<close>: the program reads its \<open>name\<close> and its declared content
  type \<open>type\<close>.\<close>

record File =
  file_name :: string
  file_type :: string

datatype sender = ai | user_sender

text \<open>
  A \<open>ChatMessage\<close>. Its \<open>id\<close> and \<open>timestamp\<close> come from the clock
  (\<open>Date.now()\<close>, \<open>new Date()\<close>) and are left out. An action is a label and an
  action name.
\<close>

record ChatMessage =
  msg_type :: sender
  msg_content :: string
  msg_actions :: "(string \<times> string) list"

text \<open>
  What \<open>uploadScriptFile\<close> resolves to: the four list lengths the message reports, each
  absent when \<open>script_breakdown\<close> or the list is missing (\<open>?.length || 0\<close>).
\<close>

record script_breakdown_counts =
  scenes_length :: "nat option"
  characters_length :: "nat option"
  locations_length :: "nat option"
  props_length :: "nat option"

text \<open>The outcome of the request: the promise rejects or resolves with the data.\<close>

datatype upload_response = Rejected | Resolved script_breakdown_counts

text \<open>
  The panel's state: the message list, the loading flag, and the trace of the files
  handed to \<open>uploadScriptFile\<close> (the analysis requests sent).
\<close>

record chat_panel =
  messages :: "ChatMessage list"
  isLoading :: bool
  requests :: "File list"

definition allowedTypes :: "string list" where
  "allowedTypes = [''application/pdf'', ''text/plain'', ''text/x-fountain'']"

definition allowedExtensions :: "string list" where
  "allowedExtensions = [''.pdf'', ''.txt'', ''.fountain'', ''.fdx'']"

text \<open>\<open>'.' + file.name.split('.').pop()?.toLowerCase()\<close>\<close>

definition fileExtension :: "File \<Rightarrow> string" where
  "fileExtension file = ''.'' @ toLowerCase (last (split (CHR ''.'') (file_name file)))"

definition or_zero :: "nat option \<Rightarrow> nat" where
  "or_zero l = (case l of None \<Rightarrow> 0 | Some n \<Rightarrow> n)"

definition unsupported_message :: ChatMessage where
  "unsupported_message =
     \<lparr>msg_type = ai,
      msg_content = ''Please upload a valid script file (PDF, TXT, or FDX format).'',
      msg_actions = []\<rparr>"

definition analysis_failed_message :: ChatMessage where
  "analysis_failed_message =
     \<lparr>msg_type = ai,
      msg_content = ''I encountered an error while analyzing your script. Please make sure the file is valid and try again.'',
      msg_actions = []\<rparr>"

definition uploaded_message :: "File \<Rightarrow> ChatMessage" where
  "uploaded_message file =
     \<lparr>msg_type = user_sender,
      msg_content = ''Uploaded script file: '' @ file_name file,
      msg_actions = []\<rparr>"

text \<open>The bullet character of the message text, as its UTF-8 bytes.\<close>

definition bullet :: string where
  "bullet = [CHR 0xE2, CHR 0x80, CHR 0xA2]"

definition analysed_message :: "File \<Rightarrow> script_breakdown_counts \<Rightarrow> ChatMessage" where
  "analysed_message file d =
     \<lparr>msg_type = ai,
      msg_content =
        ''Great! I've analyzed your script \"'' @ file_name file @ ''\". Here's what I found:'' @
        [CHR 0x0A, CHR 0x0A] @
        bullet @ '' **'' @ digits_of (or_zero (scenes_length d)) @ '' scenes** identified'' @ [CHR 0x0A] @
        bullet @ '' **'' @ digits_of (or_zero (characters_length d)) @ '' characters** found'' @ [CHR 0x0A] @
        bullet @ '' **'' @ digits_of (or_zero (locations_length d)) @ '' locations** detected'' @ [CHR 0x0A] @
        bullet @ '' **'' @ digits_of (or_zero (props_length d)) @ '' props** identified'' @
        [CHR 0x0A, CHR 0x0A] @
        ''The script analysis is complete! You can now view the detailed breakdown in the main interface.'',
      msg_actions =
        [(''View Full Analysis'', ''view-analysis''), (''Generate Budget'', ''generate-budget'')]\<rparr>"

text \<open>
  \<open>uploadFile\<close>, with the server's answer to \<open>uploadScriptFile\<close> as the parameter
  \<open>uploadScriptFile\<close>. The early return pushes the unsupported-format message and sends
  nothing; otherwise the request is sent and \<open>finally\<close> clears the loading flag.
\<close>

definition uploadFile :: "(File \<Rightarrow> upload_response) \<Rightarrow> File \<Rightarrow> chat_panel \<Rightarrow> chat_panel" where
  "uploadFile uploadScriptFile file st =
     (if file_type file \<notin> set allowedTypes \<and> fileExtension file \<notin> set allowedExtensions
      then st\<lparr>messages := messages st @ [unsupported_message]\<rparr>
      else
        (let st1 = st\<lparr>messages := messages st @ [uploaded_message file], isLoading := True\<rparr>;
             st2 = st1\<lparr>requests := requests st1 @ [file]\<rparr>
         in (case uploadScriptFile file of
               Resolved d \<Rightarrow>
                 st2\<lparr>messages := messages st2 @ [analysed_message file d], isLoading := False\<rparr>
             | Rejected \<Rightarrow>
                 st2\<lparr>messages := messages st2 @ [analysis_failed_message], isLoading := False\<rparr>)))"

definition empty_panel :: chat_panel where
  "empty_panel = \<lparr>messages = [], isLoading = False, requests = []\<rparr>"

definition fountain_file :: File where
  "fountain_file = \<lparr>file_name = ''script.fountain'', file_type = ''''\<rparr>"

definition docx_file :: File where
  "docx_file = \<lparr>file_name = ''notes.docx'', file_type = ''application/msword''\<rparr>"

definition pdf_file :: File where
  "pdf_file = \<lparr>file_name = ''Draft.v2.PDF'', file_type = ''''\<rparr>"

definition always_rejects :: "File \<Rightarrow> upload_response" where
  "always_rejects f = Rejected"

section \<open>Notions used in the statements\<close>

text \<open>A text of digits and points only, and the number of its points.\<close>

definition dd :: "string \<Rightarrow> bool" where
  "dd s = list_all (\<lambda>c. is_digit c \<or> c = CHR ''.'') s"

definition dots :: "string \<Rightarrow> nat" where
  "dots s = length (filter (\<lambda>c. c = CHR ''.'') s)"

text \<open>A Number that is \<open>NaN\<close>, \<open>Infinity\<close>, or a double that is not negative.\<close>

fun nonneg_double :: "jsnum \<Rightarrow> bool" where
  "nonneg_double (Fin a) = (0 \<le> a \<and> fl a = Fin a)"
| "nonneg_double NegInf = False"
| "nonneg_double x = True"

text \<open>The percent the breakdown computes from an amount and the total.\<close>

definition percent_of :: "jsnum \<Rightarrow> jsnum \<Rightarrow> jsnum" where
  "percent_of a t = Number (toFixed 1 (fmul (fdiv a t) (Fin 100)))"

text \<open>
  Rounding to one decimal place as the specification words it: the nearest multiple of
  one tenth, a tie going up.
\<close>

definition round_one_decimal :: "rat \<Rightarrow> rat" where
  "round_one_decimal x = of_int (round (x * 10)) / 10"

text \<open>The finite value of a bar's percent (0 when it is not finite).\<close>

definition percent_value :: "breakdown_item \<Rightarrow> rat" where
  "percent_value item = (case percent item of Fin p \<Rightarrow> p | _ \<Rightarrow> 0)"

text \<open>The bars made of the entries of a budget mapping that have a positive percent, in the
  order of the entries.\<close>

definition shown :: "host \<Rightarrow> (string \<times> string) list \<Rightarrow> breakdown_item list" where
  "shown h b =
     filter (\<lambda>item. gt (percent item) (Fin 0)) (map (breakdown_entry h (budget_total b)) b)"

section \<open>Rounding to a double\<close>

lemma pow2_less_imp: "(2::rat) powi a < 2 powi b \<Longrightarrow> a < b"
proof (rule ccontr)
  assume h: "(2::rat) powi a < 2 powi b" and "\<not> a < b"
  then have "b \<le> a" by simp
  then have "(2::rat) powi b \<le> 2 powi a" by (intro power_int_increasing) auto
  with h show False by simp
qed

lemma pow2_le_of_int: "2 ^ k \<le> (m::int) \<Longrightarrow> (2::rat) ^ k \<le> of_int m"
proof -
  assume "2 ^ k \<le> m"
  then have "(of_int (2 ^ k) :: rat) \<le> of_int m" by (simp only: of_int_le_iff)
  then show ?thesis by simp
qed

lemma of_int_le_pow2: "(m::int) \<le> 2 ^ k \<Longrightarrow> (of_int m :: rat) \<le> 2 ^ k"
proof -
  assume "m \<le> 2 ^ k"
  then have "(of_int m :: rat) \<le> of_int (2 ^ k)" by (simp only: of_int_le_iff)
  then show ?thesis by simp
qed

lemma ilog2_bounds:
  assumes "0 < x"
  shows "2 powi ilog2 x \<le> x \<and> x < 2 powi (ilog2 x + 1)"
proof (cases "1 \<le> x")
  case True
  define n where "n = \<lfloor>x\<rfloor>"
  have n1: "1 \<le> n" using True by (simp add: n_def)
  then have n0: "0 < n" by simp
  have il: "ilog2 x = bitlen n - 1" using True by (simp add: ilog2_def n_def)
  have bl: "1 \<le> bitlen n" using n0 by (simp add: bitlen_ge_iff_power)
  from bitlen_bounds [OF n0] have b1: "2 ^ nat (bitlen n - 1) \<le> n" and b2: "n < 2 ^ nat (bitlen n)"
    by auto
  have "(2::rat) powi (bitlen n - 1) = 2 ^ nat (bitlen n - 1)"
    using bl by (simp add: power_int_nonneg_exp)
  also have "\<dots> \<le> of_int n" using b1 by (rule pow2_le_of_int)
  also have "\<dots> \<le> x" by (simp add: n_def)
  finally have lo: "2 powi ilog2 x \<le> x" by (simp add: il)
  have "n + 1 \<le> 2 ^ nat (bitlen n)" using b2 by simp
  then have "(of_int (n + 1) :: rat) \<le> 2 ^ nat (bitlen n)" by (rule of_int_le_pow2)
  moreover have "x < of_int (n + 1)" using floor_correct [of x] by (simp add: n_def)
  ultimately have "x < 2 ^ nat (bitlen n)" by linarith
  also have "\<dots> = 2 powi (bitlen n)" using bl by (simp add: power_int_nonneg_exp)
  finally have hi: "x < 2 powi (ilog2 x + 1)" by (simp add: il)
  from lo hi show ?thesis by simp
next
  case False
  then have x1: "x < 1" by simp
  define y where "y = 1 / x"
  have y1: "1 < y" using assms x1 by (simp add: y_def)
  define m where "m = \<lceil>y\<rceil> - 1"
  have my: "of_int m < y" using ceiling_correct [of y] by (simp add: m_def)
  have ym: "y \<le> of_int (m + 1)" by (simp add: m_def)
  have m1: "1 \<le> m" using y1 by (simp add: m_def)
  then have m0: "0 < m" by simp
  have il: "ilog2 x = - bitlen m" using False by (simp add: ilog2_def m_def y_def)
  have bl: "1 \<le> bitlen m" using m0 by (simp add: bitlen_ge_iff_power)
  from bitlen_bounds [OF m0] have b1: "2 ^ nat (bitlen m - 1) \<le> m" and b2: "m < 2 ^ nat (bitlen m)"
    by auto
  have "m + 1 \<le> 2 ^ nat (bitlen m)" using b2 by simp
  then have "(of_int (m + 1) :: rat) \<le> 2 ^ nat (bitlen m)" by (rule of_int_le_pow2)
  with ym have "y \<le> 2 ^ nat (bitlen m)" by linarith
  also have "\<dots> = 2 powi (bitlen m)" using bl by (simp add: power_int_nonneg_exp)
  finally have yhi: "y \<le> 2 powi (bitlen m)" .
  have "1 / (2 powi (bitlen m)) \<le> 1 / y" using yhi y1 by (intro divide_left_mono) auto
  then have lo: "2 powi ilog2 x \<le> x" using assms by (simp add: il y_def power_int_minus_divide)
  have "(2::rat) ^ nat (bitlen m - 1) \<le> of_int m" using b1 by (rule pow2_le_of_int)
  with my have "(2::rat) ^ nat (bitlen m - 1) < y" by linarith
  moreover have "(2::rat) ^ nat (bitlen m - 1) = 2 powi (bitlen m - 1)"
    using bl by (simp add: power_int_nonneg_exp)
  ultimately have ylo: "2 powi (bitlen m - 1) < y" by simp
  have p1: "(0::rat) < 2 powi (bitlen m - 1)" by (simp add: zero_less_power_int)
  have "1 / y < 1 / (2 powi (bitlen m - 1))" using ylo p1 y1
    by (intro divide_strict_left_mono) (auto intro: mult_pos_pos)
  moreover have "(1::rat) / (2 powi (bitlen m - 1)) = 2 powi (- (bitlen m - 1))"
    by (simp only: power_int_minus_divide)
  ultimately have hi: "x < 2 powi (ilog2 x + 1)" using assms by (simp add: il y_def)
  from lo hi show ?thesis by simp
qed

lemma ilog2_unique:
  assumes "2 powi k \<le> x" "x < 2 powi (k + 1)"
  shows "ilog2 x = k"
proof -
  have "(0::rat) < 2 powi k" by (simp add: zero_less_power_int)
  with assms have x0: "0 < x" by linarith
  from ilog2_bounds [OF x0] have a: "2 powi ilog2 x \<le> x" and b: "x < 2 powi (ilog2 x + 1)" by auto
  have "(2::rat) powi ilog2 x < 2 powi (k + 1)" using a assms by simp
  then have "ilog2 x < k + 1" by (rule pow2_less_imp)
  moreover have "(2::rat) powi k < 2 powi (ilog2 x + 1)" using b assms by simp
  then have "k < ilog2 x + 1" by (rule pow2_less_imp)
  ultimately show ?thesis by simp
qed

lemma ilog2_mono:
  assumes "0 < x" "x \<le> y"
  shows "ilog2 x \<le> ilog2 y"
proof -
  have y0: "0 < y" using assms by simp
  from ilog2_bounds [OF assms(1)] have "2 powi ilog2 x \<le> x" by simp
  moreover from ilog2_bounds [OF y0] have "y < 2 powi (ilog2 y + 1)" by simp
  ultimately have "(2::rat) powi ilog2 x < 2 powi (ilog2 y + 1)" using assms by simp
  then have "ilog2 x < ilog2 y + 1" by (rule pow2_less_imp)
  then show ?thesis by simp
qed

lemma round_even_of_int: "round_even (of_int m) = m"
  by (simp add: round_even_def)

lemma round_even_bounds: "of_int (round_even y) \<le> y + 1 / 2 \<and> y - 1 / 2 \<le> of_int (round_even y)"
  unfolding round_even_def Let_def
  by (auto simp: not_less) linarith+

lemma round_even_floor: "\<lfloor>y\<rfloor> \<le> round_even y \<and> round_even y \<le> \<lfloor>y\<rfloor> + 1"
  by (simp add: round_even_def Let_def)

lemma round_even_mono:
  assumes "y \<le> z"
  shows "round_even y \<le> round_even z"
proof (cases "\<lfloor>y\<rfloor> = \<lfloor>z\<rfloor>")
  case True
  have "y - of_int \<lfloor>z\<rfloor> \<le> z - of_int \<lfloor>z\<rfloor>" using assms by simp
  then show ?thesis unfolding round_even_def Let_def True by auto
next
  case False
  have "\<lfloor>y\<rfloor> \<le> \<lfloor>z\<rfloor>" using assms by (rule floor_mono)
  with False have "\<lfloor>y\<rfloor> + 1 \<le> \<lfloor>z\<rfloor>" by simp
  with round_even_floor [of y] round_even_floor [of z] show ?thesis by linarith
qed

lemma pow2_pos [simp]: "(0::rat) < 2 powi e"
  by (simp add: zero_less_power_int)

lemma pow2_add: "(2::rat) powi (a + b) = 2 powi a * 2 powi b"
  by (simp add: power_int_add)

lemma ulp_exp_ge: "- 1074 \<le> ulp_exp x" and ulp_exp_ge': "ilog2 x - 52 \<le> ulp_exp x"
  by (simp_all add: ulp_exp_def)

lemma scaled_lt:
  assumes "0 < x"
  shows "x / 2 powi ulp_exp x < 2 ^ 53"
proof -
  from ilog2_bounds [OF assms] have "x < 2 powi (ilog2 x + 1)" by simp
  also have "(2::rat) powi (ilog2 x + 1) \<le> 2 powi (ulp_exp x + 53)"
    using ulp_exp_ge' [of x] by (intro power_int_increasing) auto
  also have "\<dots> = 2 powi ulp_exp x * 2 ^ 53" by (simp add: power_int_add)
  finally have "x < 2 ^ 53 * 2 powi ulp_exp x" by (simp add: mult.commute)
  then show ?thesis by (simp add: pos_divide_less_eq)
qed

lemma scaled_ge:
  assumes "0 < x" "- 1074 \<le> ilog2 x - 52"
  shows "2 ^ 52 \<le> x / 2 powi ulp_exp x"
proof -
  have e: "ulp_exp x = ilog2 x - 52" using assms by (simp add: ulp_exp_def)
  have "(2::rat) ^ 52 * 2 powi ulp_exp x = 2 powi (ulp_exp x + 52)" by (simp add: power_int_add)
  also have "\<dots> = 2 powi ilog2 x" by (simp add: e)
  also have "\<dots> \<le> x" using ilog2_bounds [OF assms(1)] by simp
  finally show ?thesis by (simp add: pos_le_divide_eq)
qed

lemma round_even_le: "y \<le> of_int m \<Longrightarrow> round_even y \<le> m"
  using round_even_mono [of y "of_int m"] by (simp add: round_even_of_int)

lemma round_even_ge: "of_int m \<le> y \<Longrightarrow> m \<le> round_even y"
  using round_even_mono [of "of_int m" y] by (simp add: round_even_of_int)

lemma mant_le:
  assumes "0 < x"
  shows "round_even (x / 2 powi ulp_exp x) \<le> 2 ^ 53"
proof -
  have "x / 2 powi ulp_exp x \<le> of_int (2 ^ 53)" using scaled_lt [OF assms] by simp
  then show ?thesis by (rule round_even_le)
qed

lemma mant_ge:
  assumes "0 < x" "- 1074 \<le> ilog2 x - 52"
  shows "2 ^ 52 \<le> round_even (x / 2 powi ulp_exp x)"
proof -
  have "of_int (2 ^ 52) \<le> x / 2 powi ulp_exp x" using scaled_ge [OF assms] by simp
  then show ?thesis by (rule round_even_ge)
qed

lemma mant_nonneg:
  assumes "0 \<le> x"
  shows "0 \<le> round_even (x / 2 powi ulp_exp x)"
proof -
  have "of_int 0 \<le> x / 2 powi ulp_exp x" using assms by simp
  then show ?thesis by (rule round_even_ge)
qed

lemma round53_nonneg: "0 \<le> x \<Longrightarrow> 0 \<le> round53 x"
  using mant_nonneg [of x] by (simp add: round53_def)

lemma round53_zero: "round53 0 = 0"
  by (simp add: round53_def round_even_def)

text \<open>Exactly representable values are fixed points.\<close>

lemma round53_normal:
  assumes "2 ^ 52 \<le> M" "M < 2 ^ 53" "- 1074 \<le> e"
  shows "round53 (of_int M * 2 powi e) = of_int M * 2 powi e"
proof -
  let ?v = "of_int M * 2 powi e :: rat"
  have lo: "(2::rat) ^ 52 \<le> of_int M" using assms(1) by (rule pow2_le_of_int)
  have "M + 1 \<le> 2 ^ 53" using assms(2) by simp
  then have "(of_int (M + 1) :: rat) \<le> 2 ^ 53" by (rule of_int_le_pow2)
  then have hi: "(of_int M :: rat) < 2 ^ 53" by simp
  have "(2::rat) powi (e + 52) = 2 ^ 52 * 2 powi e" by (simp add: power_int_add)
  also have "\<dots> \<le> ?v" using lo by (intro mult_right_mono) auto
  finally have a: "2 powi (e + 52) \<le> ?v" .
  have "?v < 2 ^ 53 * 2 powi e" using hi by (intro mult_strict_right_mono) auto
  also have "\<dots> = 2 powi (e + 52 + 1)" by (simp add: power_int_add)
  finally have b: "?v < 2 powi (e + 52 + 1)" .
  have "ilog2 ?v = e + 52" using a b by (rule ilog2_unique)
  then have ue: "ulp_exp ?v = e" using assms(3) by (simp add: ulp_exp_def)
  show ?thesis by (simp add: round53_def ue round_even_of_int)
qed

lemma round53_subnormal:
  assumes "0 < M" "M < 2 ^ 52" "e = - 1074"
  shows "round53 (of_int M * 2 powi e) = of_int M * 2 powi e"
proof -
  let ?v = "of_int M * 2 powi e :: rat"
  have v0: "0 < ?v" using assms(1) by simp
  have "M + 1 \<le> 2 ^ 52" using assms(2) by simp
  then have "(of_int (M + 1) :: rat) \<le> 2 ^ 52" by (rule of_int_le_pow2)
  then have hi: "(of_int M :: rat) < 2 ^ 52" by simp
  have "?v < 2 ^ 52 * 2 powi e" using hi by (intro mult_strict_right_mono) auto
  also have "\<dots> = 2 powi (e + 52)" by (simp add: pow2_add)
  finally have b: "?v < 2 powi (e + 52)" .
  have "2 powi ilog2 ?v \<le> ?v" using ilog2_bounds [OF v0] by simp
  with b have "(2::rat) powi ilog2 ?v < 2 powi (e + 52)" by simp
  then have "ilog2 ?v < e + 52" by (rule pow2_less_imp)
  then have ue: "ulp_exp ?v = e" using assms(3) by (simp add: ulp_exp_def)
  show ?thesis by (simp add: round53_def ue round_even_of_int)
qed

lemma round53_pow2:
  assumes "- 1074 \<le> e"
  shows "round53 (2 ^ 53 * 2 powi e) = 2 ^ 53 * 2 powi e"
proof -
  have eq: "(2::rat) ^ 53 * 2 powi e = of_int (2 ^ 52) * 2 powi (e + 1)"
    by (simp add: pow2_add)
  show ?thesis unfolding eq using assms by (intro round53_normal) auto
qed

lemma round53_idem:
  assumes "0 < x"
  shows "round53 (round53 x) = round53 x"
proof -
  define e where "e = ulp_exp x"
  define M where "M = round_even (x / 2 powi e)"
  have r: "round53 x = of_int M * 2 powi e" by (simp add: round53_def M_def e_def)
  have M0: "0 \<le> M" using mant_nonneg [of x] assms by (simp add: M_def e_def)
  have M53: "M \<le> 2 ^ 53" using mant_le [OF assms] by (simp add: M_def e_def)
  have e1074: "- 1074 \<le> e" by (simp add: e_def ulp_exp_ge)
  consider "M = 0" | "M = 2 ^ 53" | "2 ^ 52 \<le> M" "M < 2 ^ 53" | "0 < M" "M < 2 ^ 52"
    using M0 M53 by linarith
  then show ?thesis
  proof cases
    case 1
    then show ?thesis by (simp add: r round53_zero)
  next
    case 2
    then show ?thesis using round53_pow2 [OF e1074] by (simp add: r)
  next
    case 3
    then show ?thesis using round53_normal [OF _ _ e1074] by (simp add: r)
  next
    case 4
    have "e = - 1074"
    proof (rule ccontr)
      assume "e \<noteq> - 1074"
      then have "- 1074 \<le> ilog2 x - 52" using e1074 by (simp add: e_def ulp_exp_def)
      from mant_ge [OF assms this] have "2 ^ 52 \<le> M" by (simp add: M_def e_def)
      with 4 show False by simp
    qed
    then show ?thesis using round53_subnormal [OF 4] by (simp only: r)
  qed
qed

lemma round53_mono:
  assumes "0 < x" "x \<le> y"
  shows "round53 x \<le> round53 y"
proof -
  have y0: "0 < y" using assms by simp
  have il: "ilog2 x \<le> ilog2 y" using assms by (rule ilog2_mono)
  then have ee: "ulp_exp x \<le> ulp_exp y" by (simp add: ulp_exp_def)
  show ?thesis
  proof (cases "ulp_exp x = ulp_exp y")
    case True
    have "x / 2 powi ulp_exp y \<le> y / 2 powi ulp_exp y"
      using assms(2) by (intro divide_right_mono) auto
    then have "round_even (x / 2 powi ulp_exp y) \<le> round_even (y / 2 powi ulp_exp y)"
      by (rule round_even_mono)
    then have "(of_int (round_even (x / 2 powi ulp_exp y)) :: rat) \<le>
        of_int (round_even (y / 2 powi ulp_exp y))" by (simp only: of_int_le_iff)
    then show ?thesis unfolding round53_def True by (intro mult_right_mono) auto
  next
    case False
    with ee have lt: "ulp_exp x + 1 \<le> ulp_exp y" by simp
    have "- 1074 < ulp_exp y" using lt ulp_exp_ge [of x] by simp
    then have ny: "- 1074 \<le> ilog2 y - 52" by (simp add: ulp_exp_def)
    have "(of_int (round_even (x / 2 powi ulp_exp x)) :: rat) \<le> 2 ^ 53"
      using mant_le [OF assms(1)] by (rule of_int_le_pow2)
    then have "round53 x \<le> 2 ^ 53 * 2 powi ulp_exp x"
      unfolding round53_def by (intro mult_right_mono) auto
    also have "\<dots> = 2 powi (ulp_exp x + 53)" by (simp add: power_int_add)
    also have "\<dots> \<le> 2 powi (ulp_exp y + 52)"
      using lt by (intro power_int_increasing) auto
    also have "\<dots> = 2 ^ 52 * 2 powi ulp_exp y" by (simp add: power_int_add)
    also have "\<dots> \<le> round53 y"
    proof -
      have "(2::rat) ^ 52 \<le> of_int (round_even (y / 2 powi ulp_exp y))"
        using mant_ge [OF y0 ny] by (rule pow2_le_of_int)
      then show ?thesis unfolding round53_def by (intro mult_right_mono) auto
    qed
    finally show ?thesis .
  qed
qed

lemma round53_grid:
  assumes "0 \<le> x"
  shows "\<exists>m::int. 0 \<le> m \<and> round53 x = of_int m * 2 powi (- 1074)"
proof -
  define e where "e = ulp_exp x"
  define M where "M = round_even (x / 2 powi e)"
  have e1074: "- 1074 \<le> e" by (simp add: e_def ulp_exp_ge)
  have M0: "0 \<le> M" using mant_nonneg [OF assms] by (simp add: M_def e_def)
  have "(2::rat) powi e = 2 powi (int (nat (e + 1074)) + (- 1074))" using e1074 by simp
  also have "\<dots> = 2 ^ nat (e + 1074) * 2 powi (- 1074)"
    by (simp only: pow2_add power_int_of_nat)
  finally have "round53 x = of_int (M * 2 ^ nat (e + 1074)) * 2 powi (- 1074)"
    by (simp add: round53_def M_def e_def)
  moreover have "0 \<le> M * 2 ^ nat (e + 1074)" using M0 by simp
  ultimately show ?thesis by blast
qed

lemma round53_pos:
  assumes "2 powi (- 1074) \<le> x"
  shows "0 < round53 x"
proof -
  have "(0::rat) < 2 powi (- 1074)" by (rule pow2_pos)
  with assms have x0: "0 < x" by linarith
  have "1 \<le> round_even (x / 2 powi ulp_exp x)"
  proof (cases "- 1074 \<le> ilog2 x - 52")
    case True
    from mant_ge [OF x0 True] show ?thesis by simp
  next
    case False
    then have ue: "ulp_exp x = - 1074" by (simp add: ulp_exp_def)
    have "of_int 1 \<le> x / 2 powi ulp_exp x" using assms by (simp add: ue pos_le_divide_eq)
    then show ?thesis by (rule round_even_ge)
  qed
  then have "(0::rat) < of_int (round_even (x / 2 powi ulp_exp x))" by simp
  then show ?thesis unfolding round53_def by (intro mult_pos_pos) auto
qed

lemma fl_pos_cases:
  assumes "0 < x"
  shows "fl x = PosInf \<or> (0 \<le> round53 x \<and> round53 x < 2 ^ 1024 \<and> fl x = Fin (round53 x))"
  using assms round53_nonneg [of x] by (simp add: fl_def fl_pos_def not_le)

lemma fl_nonneg_cases:
  assumes "0 \<le> x"
  shows "fl x = PosInf \<or> (\<exists>r. 0 \<le> r \<and> fl x = Fin r)"
proof (cases "x = 0")
  case True
  then show ?thesis by (simp add: fl_def)
next
  case False
  with assms have "0 < x" by simp
  from fl_pos_cases [OF this] show ?thesis by blast
qed

lemma fl_pos_fix:
  assumes "0 < r" "round53 r = r" "r < 2 ^ 1024"
  shows "fl r = Fin r"
  using assms by (simp add: fl_def fl_pos_def)

lemma fl_idem:
  assumes "fl x = Fin r"
  shows "fl r = Fin r"
proof -
  consider "x = 0" | "0 < x" | "x < 0" by linarith
  then show ?thesis
  proof cases
    case 1
    with assms show ?thesis by (simp add: fl_def)
  next
    case 2
    from fl_pos_cases [OF 2] assms
    have r: "r = round53 x" and r0: "0 \<le> r" and rb: "r < 2 ^ 1024" by auto
    show ?thesis
    proof (cases "r = 0")
      case True
      then show ?thesis by (simp add: fl_def)
    next
      case False
      with r0 have "0 < r" by simp
      moreover have "round53 r = r" using round53_idem [OF 2] by (simp add: r)
      ultimately show ?thesis using rb by (rule fl_pos_fix)
    qed
  next
    case 3
    then have nx: "0 < - x" by simp
    have "fl x = neg (fl (- x))" using 3 by (simp add: fl_def)
    with assms have "neg (fl (- x)) = Fin r" by simp
    then have f: "fl (- x) = Fin (- r)" by (cases "fl (- x)") auto
    from fl_pos_cases [OF nx] f
    have r: "- r = round53 (- x)" and r0: "0 \<le> - r" and rb: "- r < 2 ^ 1024" by auto
    show ?thesis
    proof (cases "r = 0")
      case True
      then show ?thesis by (simp add: fl_def)
    next
      case False
      with r0 have p: "0 < - r" by simp
      moreover have "round53 (- r) = - r" using round53_idem [OF nx] by (simp add: r)
      ultimately have "fl (- r) = Fin (- r)" using rb by (rule fl_pos_fix)
      moreover have "fl r = neg (fl (- r))" using p by (simp add: fl_def)
      ultimately show ?thesis by simp
    qed
  qed
qed

lemma fl_mono_nonneg:
  assumes "0 \<le> x" "x \<le> y"
  shows "le_num (fl x) (fl y)"
proof (cases "x = 0")
  case True
  have "0 \<le> y" using assms by simp
  from fl_nonneg_cases [OF this] show ?thesis using True by (auto simp: fl_def)
next
  case False
  with assms have x0: "0 < x" by simp
  with assms have y0: "0 < y" by simp
  have m: "round53 x \<le> round53 y" using x0 assms(2) by (rule round53_mono)
  show ?thesis
  proof (cases "(2::rat) ^ 1024 \<le> round53 x")
    case True
    with m have "(2::rat) ^ 1024 \<le> round53 y" by linarith
    with True x0 y0 show ?thesis by (simp add: fl_def fl_pos_def)
  next
    case False
    then have fx: "fl x = Fin (round53 x)" using x0 by (simp add: fl_def fl_pos_def)
    show ?thesis
    proof (cases "(2::rat) ^ 1024 \<le> round53 y")
      case True
      then have "fl y = PosInf" using y0 by (simp add: fl_def fl_pos_def)
      with fx show ?thesis by simp
    next
      case False
      then have "fl y = Fin (round53 y)" using y0 by (simp add: fl_def fl_pos_def)
      with fx m show ?thesis by simp
    qed
  qed
qed

lemma double_grid:
  assumes "fl r = Fin r"
  shows "\<exists>m::int. r = of_int m * 2 powi (- 1074)"
proof -
  consider "r = 0" | "0 < r" | "r < 0" by linarith
  then show ?thesis
  proof cases
    case 1
    then have "r = of_int 0 * 2 powi (- 1074)" by simp
    then show ?thesis by blast
  next
    case 2
    from fl_pos_cases [OF 2] assms have "round53 r = r" by auto
    with round53_grid [of r] 2 show ?thesis by (metis less_imp_le)
  next
    case 3
    then have nr: "0 < - r" by simp
    have "fl r = neg (fl (- r))" using 3 by (simp add: fl_def)
    with assms have "neg (fl (- r)) = Fin r" by simp
    then have "fl (- r) = Fin (- r)" by (cases "fl (- r)") auto
    with fl_pos_cases [OF nr] have "round53 (- r) = - r" by auto
    with round53_grid [of "- r"] nr obtain m :: int where "- r = of_int m * 2 powi (- 1074)"
      by (metis less_imp_le)
    then have "r = of_int (- m) * 2 powi (- 1074)" by simp
    then show ?thesis by blast
  qed
qed

lemma fl_sign:
  assumes "fl a = Fin a" "fl b = Fin b"
  shows "gt (fl (b - a)) (Fin 0) \<longleftrightarrow> a < b"
proof (cases "a < b")
  case True
  from double_grid [OF assms(1)] obtain ma :: int where ma: "a = of_int ma * 2 powi (- 1074)" by blast
  from double_grid [OF assms(2)] obtain mb :: int where mb: "b = of_int mb * 2 powi (- 1074)" by blast
  have d: "b - a = of_int (mb - ma) * 2 powi (- 1074)" by (simp add: ma mb algebra_simps)
  have "0 < b - a" using True by simp
  then have "(0::rat) < of_int (mb - ma) * 2 powi (- 1074)" by (simp only: d)
  then have "(0::rat) < of_int (mb - ma)" by (simp add: zero_less_mult_iff)
  then have "1 \<le> mb - ma" by simp
  then have "(of_int 1 :: rat) \<le> of_int (mb - ma)" by (simp only: of_int_le_iff)
  then have "(1::rat) * 2 powi (- 1074) \<le> of_int (mb - ma) * 2 powi (- 1074)"
    by (intro mult_right_mono) auto
  then have g: "2 powi (- 1074) \<le> b - a" by (simp only: d mult_1)
  have p: "0 < round53 (b - a)" using g by (rule round53_pos)
  have "0 < b - a" using True by simp
  from fl_pos_cases [OF this] p have "gt (fl (b - a)) (Fin 0)" by (auto simp: gt_def)
  with True show ?thesis by simp
next
  case False
  then have le: "b - a \<le> 0" by simp
  have "\<not> gt (fl (b - a)) (Fin 0)"
  proof (cases "b - a = 0")
    case True
    then show ?thesis by (simp add: fl_def gt_def)
  next
    case False
    with le have n: "0 < - (b - a)" by simp
    have "fl (b - a) = neg (fl (- (b - a)))" using n by (simp add: fl_def)
    with fl_pos_cases [OF n] show ?thesis by (auto simp: gt_def)
  qed
  with False show ?thesis by simp
qed

section \<open>Digits and decimal literals\<close>

lemma lt10_cases: "(k::nat) < 10 \<Longrightarrow> k = 0 \<or> k = 1 \<or> k = 2 \<or> k = 3 \<or> k = 4 \<or> k = 5 \<or> k = 6 \<or> k = 7 \<or> k = 8 \<or> k = 9"
  by arith

lemma digit_char_props:
  assumes "k < 10"
  shows "is_digit (digit_char k) \<and> digit_val (digit_char k) = k \<and>
         \<not> StrWhiteSpaceChar (digit_char k) \<and> digit_char k \<noteq> CHR ''.''"
  using lt10_cases [OF assms]
  by (elim disjE) (simp_all add: is_digit_def digit_val_def StrWhiteSpaceChar_def digit_char_def)

lemma is_digit_props:
  assumes "is_digit c"
  shows "c \<noteq> CHR ''.'' \<and> c \<noteq> CHR ''-'' \<and> c \<noteq> CHR ''+'' \<and> c \<noteq> CHR ''I'' \<and> \<not> StrWhiteSpaceChar c \<and>
    c \<noteq> CHR ''x'' \<and> c \<noteq> CHR ''X'' \<and> c \<noteq> CHR ''o'' \<and> c \<noteq> CHR ''O'' \<and> c \<noteq> CHR ''b'' \<and> c \<noteq> CHR ''B'' \<and>
    c \<noteq> CHR ''e'' \<and> c \<noteq> CHR ''E''"
  using assms by (auto simp: is_digit_def StrWhiteSpaceChar_def)

lemma digits_of_props: "digits_of n \<noteq> [] \<and> list_all is_digit (digits_of n) \<and> dec_val (digits_of n) = n"
proof (induction n rule: digits_of.induct)
  case (1 n)
  show ?case
  proof (cases "n < 10")
    case True
    then show ?thesis
      using digit_char_props [of n] by (simp add: digits_of.simps [of n] dec_val_def)
  next
    case False
    have m: "n mod 10 < 10" by simp
    from False 1 have ih: "digits_of (n div 10) \<noteq> []" "list_all is_digit (digits_of (n div 10))"
      "dec_val (digits_of (n div 10)) = n div 10" by auto
    show ?thesis
      using False ih digit_char_props [OF m]
      by (simp add: digits_of.simps [of n] dec_val_def)
  qed
qed

lemma dot_props:
  "\<not> is_digit (CHR ''.'') \<and> \<not> StrWhiteSpaceChar (CHR ''.'')"
  by (simp add: is_digit_def StrWhiteSpaceChar_def)

lemma dd_no_ws: "dd s \<Longrightarrow> c \<in> set s \<Longrightarrow> \<not> StrWhiteSpaceChar c"
  using is_digit_props dot_props by (auto simp: dd_def list_all_iff)

lemma digit_or_dot_ascii:
  assumes "is_digit c \<or> c = CHR ''.''"
  shows "(of_char c :: nat) < 0x80"
proof -
  from assms have "c \<in> set ''0123456789.''" by (simp add: is_digit_def)
  then show ?thesis by (elim disjE rev_mp) simp_all
qed

lemma dd_ascii: "dd s \<Longrightarrow> c \<in> set s \<Longrightarrow> (of_char c :: nat) < 0x80"
  using digit_or_dot_ascii by (simp add: dd_def list_all_iff)

lemma trimStart_keep:
  assumes "\<not> StrWhiteSpaceChar a" "(of_char a :: nat) < 0x80"
  shows "trimStart (a # s) = a # s"
proof -
  have n: "a \<noteq> CHR 0xC2 \<and> a \<noteq> CHR 0xE1 \<and> a \<noteq> CHR 0xE2 \<and> a \<noteq> CHR 0xE3 \<and> a \<noteq> CHR 0xEF"
    using assms(2) by auto
  show ?thesis
  proof (cases s)
    case Nil
    then show ?thesis using assms(1) by simp
  next
    case (Cons b r)
    then show ?thesis
      using assms(1) n by (cases r) (simp_all add: StrWhiteSpaceChar2_def StrWhiteSpaceChar3_def)
  qed
qed

lemma trimEnd_rev_keep:
  assumes "\<not> StrWhiteSpaceChar c" "(of_char c :: nat) < 0x80"
  shows "trimEnd_rev (c # s) = c # s"
proof -
  have n: "c \<noteq> CHR 0xA0 \<and> c \<noteq> CHR 0x9F \<and> c \<noteq> CHR 0xBF \<and>
      c \<notin> set [CHR 0x80, CHR 0x81, CHR 0x82, CHR 0x83, CHR 0x84, CHR 0x85, CHR 0x86,
                CHR 0x87, CHR 0x88, CHR 0x89, CHR 0x8A, CHR 0xA8, CHR 0xA9, CHR 0xAF]"
    using assms(2) by auto
  show ?thesis
  proof (cases s)
    case Nil
    then show ?thesis using assms(1) by simp
  next
    case (Cons b r)
    then show ?thesis
      using assms(1) n by (cases r) (simp_all add: StrWhiteSpaceChar2_def StrWhiteSpaceChar3_def)
  qed
qed

lemma trim_dd:
  assumes "dd s"
  shows "trim s = s"
proof -
  have a: "trimStart s = s"
  proof (cases s)
    case Nil
    then show ?thesis by simp
  next
    case (Cons c cs)
    then show ?thesis
      using dd_no_ws [OF assms, of c] dd_ascii [OF assms, of c] by (simp add: trimStart_keep)
  qed
  have "trimEnd_rev (rev s) = rev s"
  proof (cases "rev s")
    case Nil
    then show ?thesis by simp
  next
    case (Cons c cs)
    then have "c \<in> set s" by (metis list.set_intros(1) set_rev)
    with dd_no_ws [OF assms, of c] dd_ascii [OF assms, of c] Cons show ?thesis
      by (simp add: trimEnd_rev_keep)
  qed
  with a show ?thesis by (simp add: trim_def)
qed

lemma not_prefix_char:
  assumes "is_digit p \<or> p = CHR ''.''"
  shows "p \<noteq> CHR ''x'' \<and> p \<noteq> CHR ''X'' \<and> p \<noteq> CHR ''o'' \<and> p \<noteq> CHR ''O'' \<and> p \<noteq> CHR ''b'' \<and> p \<noteq> CHR ''B''"
  using assms by (auto simp: is_digit_def)

lemma nondecimal_none:
  assumes "p \<noteq> CHR ''x'' \<and> p \<noteq> CHR ''X'' \<and> p \<noteq> CHR ''o'' \<and> p \<noteq> CHR ''O'' \<and> p \<noteq> CHR ''b'' \<and> p \<noteq> CHR ''B''"
  shows "NonDecimalIntegerLiteral (z # p # ds) = None"
  using assms by (simp add: NonDecimalIntegerLiteral_def)

lemma nondecimal_dd:
  assumes "dd s"
  shows "NonDecimalIntegerLiteral s = None"
proof (cases s)
  case Nil
  then show ?thesis by (simp add: NonDecimalIntegerLiteral_def)
next
  case (Cons z r)
  show ?thesis
  proof (cases r)
    case Nil
    with Cons show ?thesis by (simp add: NonDecimalIntegerLiteral_def)
  next
    case (Cons p ds)
    with assms \<open>s = z # r\<close> have "is_digit p \<or> p = CHR ''.''" by (simp add: dd_def)
    then show ?thesis
      unfolding \<open>s = z # r\<close> Cons by (intro nondecimal_none not_prefix_char)
  qed
qed

lemma Number_dd:
  assumes "dd s" "s \<noteq> []"
  shows "Number s = (case StrUnsignedDecimalLiteral s of None \<Rightarrow> NaN | Some mv \<Rightarrow> fl mv)"
proof -
  from assms(2) obtain c r where s: "s = c # r" by (cases s) auto
  with assms(1) have "is_digit c \<or> c = CHR ''.''" by (simp add: dd_def)
  then have c: "c \<noteq> CHR ''-'' \<and> c \<noteq> CHR ''+'' \<and> c \<noteq> CHR ''I''"
    by (auto simp: is_digit_def)
  then have inf: "s \<noteq> ''Infinity''" using s by auto
  have "Number s =
      (case s of [] \<Rightarrow> Fin 0
       | c # r \<Rightarrow> if c = CHR ''-'' then neg (unsigned_number r)
                  else if c = CHR ''+'' then unsigned_number r else unsigned_number s)"
    using assms(2) by (simp add: Number_def trim_dd [OF assms(1)] nondecimal_dd [OF assms(1)])
  also have "\<dots> = unsigned_number s" using c by (simp add: s)
  finally show ?thesis using inf by (simp add: unsigned_number_def)
qed

lemma digits_takeWhile:
  assumes "list_all is_digit ds" "\<not> is_digit c"
  shows "takeWhile is_digit (ds @ c # r) = ds" "dropWhile is_digit (ds @ c # r) = c # r"
    "takeWhile is_digit ds = ds" "dropWhile is_digit ds = []"
  using assms by (simp_all add: list_all_iff takeWhile_append2 dropWhile_append2)

lemma sudl_digits:
  assumes "list_all is_digit ip" "ip \<noteq> []"
  shows "StrUnsignedDecimalLiteral ip = Some (of_nat (dec_val ip))"
proof -
  have a: "takeWhile is_digit ip = ip" "dropWhile is_digit ip = []"
    using assms(1) by (simp_all add: list_all_iff)
  show ?thesis
    unfolding StrUnsignedDecimalLiteral_def Let_def a using assms(2) by simp
qed

lemma sudl_point:
  assumes "list_all is_digit ip" "list_all is_digit fp"
  shows "StrUnsignedDecimalLiteral (ip @ CHR ''.'' # fp) =
     (if ip = [] \<and> fp = [] then None
      else Some (of_nat (dec_val (ip @ fp)) * 10 powi (- int (length fp))))"
proof -
  have a: "takeWhile is_digit (ip @ CHR ''.'' # fp) = ip"
    "dropWhile is_digit (ip @ CHR ''.'' # fp) = CHR ''.'' # fp"
    using digits_takeWhile(1,2) [OF assms(1), of "CHR ''.''" fp] dot_props by auto
  have b: "takeWhile is_digit fp = fp" "dropWhile is_digit fp = []"
    using digits_takeWhile(3,4) [OF assms(2), of "CHR ''.''"] dot_props by auto
  show ?thesis
    unfolding StrUnsignedDecimalLiteral_def Let_def a
    by (simp add: b ExponentPart_def)
qed

lemma sudl_two_points:
  assumes "list_all is_digit ip" "list_all is_digit fp"
  shows "StrUnsignedDecimalLiteral (ip @ CHR ''.'' # fp @ CHR ''.'' # r) = None"
proof -
  have a: "takeWhile is_digit (ip @ CHR ''.'' # fp @ CHR ''.'' # r) = ip"
    "dropWhile is_digit (ip @ CHR ''.'' # fp @ CHR ''.'' # r) = CHR ''.'' # fp @ CHR ''.'' # r"
    using digits_takeWhile(1,2) [OF assms(1), of "CHR ''.''" "fp @ CHR ''.'' # r"] dot_props by auto
  have b: "takeWhile is_digit (fp @ CHR ''.'' # r) = fp"
    "dropWhile is_digit (fp @ CHR ''.'' # r) = CHR ''.'' # r"
    using digits_takeWhile(1,2) [OF assms(2), of "CHR ''.''" r] dot_props by auto
  show ?thesis
    unfolding StrUnsignedDecimalLiteral_def Let_def a
    by (simp add: b ExponentPart_def)
qed

text \<open>The shape of a text of digits and points.\<close>

lemma dd_split:
  assumes "dd s"
  shows "(\<exists>ip. s = ip \<and> list_all is_digit ip) \<or>
         (\<exists>ip r. s = ip @ CHR ''.'' # r \<and> list_all is_digit ip \<and> dd r)"
proof (cases "dropWhile is_digit s")
  case Nil
  then have "takeWhile is_digit s = s" by (metis append_Nil2 takeWhile_dropWhile_id)
  then have "list_all is_digit s" by (metis list_all_iff set_takeWhileD)
  then show ?thesis by simp
next
  case (Cons c r)
  have nd: "\<not> is_digit c" using hd_dropWhile [of is_digit s] Cons by simp
  have sub: "set (dropWhile is_digit s) \<subseteq> set s" by (auto dest: set_dropWhileD)
  then have "c \<in> set s" "set r \<subseteq> set s" using Cons by auto
  with assms nd have "c = CHR ''.''" "dd r" by (auto simp: dd_def list_all_iff)
  moreover have "s = takeWhile is_digit s @ c # r" using Cons by (metis takeWhile_dropWhile_id)
  moreover have "list_all is_digit (takeWhile is_digit s)"
    by (auto simp: list_all_iff dest: set_takeWhileD)
  ultimately show ?thesis by blast
qed

lemma dots_digits: "list_all is_digit ds \<Longrightarrow> dots ds = 0"
  using dot_props by (auto simp: dots_def list_all_iff filter_empty_conv)

lemma dots_append: "dots (xs @ ys) = dots xs + dots ys"
  by (simp add: dots_def)

lemma dots_Cons: "dots (CHR ''.'' # r) = Suc (dots r)"
  by (simp add: dots_def)

lemma dec_val_nonneg: "(0::rat) \<le> of_nat (dec_val ds) * 10 powi e"
  by (simp add: zero_le_power_int)

text \<open>What the decimal grammar makes of a text of digits and points.\<close>

lemma sudl_dd:
  assumes "dd s" "s \<noteq> []"
  shows "(StrUnsignedDecimalLiteral s = None \<longleftrightarrow> s = ''.'' \<or> 2 \<le> dots s) \<and>
         (\<forall>mv. StrUnsignedDecimalLiteral s = Some mv \<longrightarrow> 0 \<le> mv)"
proof -
  from dd_split [OF assms(1)] consider
    (digits) "list_all is_digit s"
    | (point) ip r where "s = ip @ CHR ''.'' # r" "list_all is_digit ip" "dd r"
    by blast
  then show ?thesis
  proof cases
    case digits
    have "s \<noteq> ''.''" using digits dot_props by auto
    then show ?thesis
      using sudl_digits [OF digits assms(2)] dots_digits [OF digits] by simp
  next
    case point
    from dd_split [OF point(3)] consider
      (one) "list_all is_digit r"
      | (two) fp r4 where "r = fp @ CHR ''.'' # r4" "list_all is_digit fp"
      by blast
    then show ?thesis
    proof cases
      case one
      have d: "dots s = 1"
        by (simp add: point(1) dots_append dots_Cons dots_digits [OF point(2)] dots_digits [OF one])
      have eq: "s = ''.'' \<longleftrightarrow> ip = [] \<and> r = []" by (auto simp: point(1) append_eq_Cons_conv)
      show ?thesis
        unfolding point(1) sudl_point [OF point(2) one]
        using d eq dec_val_nonneg by (simp add: point(1))
    next
      case two
      have d: "2 \<le> dots s"
        by (simp add: point(1) two(1) dots_append dots_Cons)
      show ?thesis
        using d sudl_two_points [OF point(2) two(2), of r4] by (simp add: point(1) two(1))
    qed
  qed
qed

section \<open>Parsing amounts, percents and sorting\<close>

lemma fl_not_NaN: "fl x \<noteq> NaN"
proof -
  have a: "\<And>y. fl_pos y \<noteq> NaN" by (simp add: fl_pos_def)
  have "\<And>y. neg (fl_pos y) \<noteq> NaN"
  proof -
    fix y show "neg (fl_pos y) \<noteq> NaN" using a [of y] by (cases "fl_pos y") auto
  qed
  with a show ?thesis by (simp add: fl_def)
qed

lemma nonneg_double_fl: "0 \<le> x \<Longrightarrow> nonneg_double (fl x)"
  using fl_nonneg_cases [of x] fl_idem [of x] by auto

lemma dd_strip: "dd (strip_currency val)"
  by (simp add: dd_def strip_currency_def list_all_iff)

lemma Number_Nil: "Number [] = Fin 0"
  by (simp add: Number_def trim_def)

lemma parseRM_eq:
  "parseRM val =
     (if strip_currency val = [] then Fin 0
      else case StrUnsignedDecimalLiteral (strip_currency val) of None \<Rightarrow> NaN | Some mv \<Rightarrow> fl mv)"
proof (cases "strip_currency val = []")
  case True
  then show ?thesis by (simp add: parseRM_def Number_Nil)
next
  case False
  then have "val \<noteq> []" by (auto simp: strip_currency_def)
  then show ?thesis
    using False Number_dd [OF dd_strip False] by (simp add: parseRM_def)
qed

lemma parseRM_NaN_iff: "parseRM val = NaN \<longleftrightarrow> strip_currency val = ''.'' \<or> 2 \<le> dots (strip_currency val)"
proof (cases "strip_currency val = []")
  case True
  then show ?thesis by (simp add: parseRM_eq dots_def)
next
  case False
  from sudl_dd [OF dd_strip False]
  have a: "StrUnsignedDecimalLiteral (strip_currency val) = None \<longleftrightarrow> strip_currency val = ''.'' \<or> 2 \<le> dots (strip_currency val)"
    by simp
  show ?thesis
  proof (cases "StrUnsignedDecimalLiteral (strip_currency val)")
    case None
    with a False show ?thesis by (simp add: parseRM_eq)
  next
    case (Some mv)
    with a have "\<not> (strip_currency val = ''.'' \<or> 2 \<le> dots (strip_currency val))" by simp
    with Some False fl_not_NaN [of mv] show ?thesis by (simp add: parseRM_eq)
  qed
qed

lemma parseRM_nonneg: "nonneg_double (parseRM val)"
proof (cases "strip_currency val = []")
  case True
  then show ?thesis by (simp add: parseRM_eq fl_def)
next
  case False
  from sudl_dd [OF dd_strip False]
  have "\<forall>mv. StrUnsignedDecimalLiteral (strip_currency val) = Some mv \<longrightarrow> 0 \<le> mv" by simp
  then show ?thesis
    using False nonneg_double_fl by (simp add: parseRM_eq split: option.split)
qed

lemma toFixed_digits_1:
  "toFixed_digits (Suc 0) a =
     digits_of (nat \<lfloor>a * 10 + 1 / 2\<rfloor> div 10) @ CHR ''.'' # [digit_char (nat \<lfloor>a * 10 + 1 / 2\<rfloor> mod 10)]"
proof -
  let ?n = "nat \<lfloor>a * 10 + 1 / 2\<rfloor>"
  show ?thesis
  proof (cases "?n < 10")
    case True
    then have m: "digits_of ?n = [digit_char ?n]" by (simp add: digits_of.simps [of ?n])
    have z: "digits_of 0 = [digit_char 0]" by (simp add: digits_of.simps [of 0])
    show ?thesis
      using True by (simp add: toFixed_digits_def Let_def m z digit_char_def)
  next
    case False
    then have m: "digits_of ?n = digits_of (?n div 10) @ [digit_char (?n mod 10)]"
      by (simp add: digits_of.simps [of ?n])
    have "digits_of (?n div 10) \<noteq> []" using digits_of_props [of "?n div 10"] by simp
    then have l: "\<not> length (digits_of (?n div 10)) = 0" by simp
    show ?thesis
      using l by (simp add: toFixed_digits_def Let_def m)
  qed
qed

lemma dec_val_snoc: "dec_val (ds @ [c]) = 10 * dec_val ds + digit_val c"
  by (simp add: dec_val_def)

lemma Number_toFixed_1:
  assumes "0 \<le> r" "r < 10 ^ 21"
  shows "Number (toFixed 1 (Fin r)) = fl (round_one_decimal r)"
proof -
  define n where "n = nat \<lfloor>r * 10 + 1 / 2\<rfloor>"
  define ip where "ip = digits_of (n div 10)"
  define d where "d = digit_char (n mod 10)"
  have m: "n mod 10 < 10" by simp
  have ip: "list_all is_digit ip" "ip \<noteq> []" "dec_val ip = n div 10"
    using digits_of_props [of "n div 10"] by (simp_all add: ip_def)
  have d: "is_digit d" "digit_val d = n mod 10"
    using digit_char_props [OF m] by (simp_all add: d_def)
  have fp: "list_all is_digit [d]" using d by simp
  have s: "toFixed 1 (Fin r) = ip @ CHR ''.'' # [d]"
    using assms by (simp add: toFixed_digits_1 n_def ip_def d_def not_le)
  have ddS: "dd (ip @ CHR ''.'' # [d])"
    using ip(1) d(1) by (auto simp: dd_def list_all_iff)
  have ne: "ip @ CHR ''.'' # [d] \<noteq> []" by simp
  have "dec_val (ip @ [d]) = n" by (simp add: dec_val_snoc ip(3) d(2))
  then have "StrUnsignedDecimalLiteral (ip @ CHR ''.'' # [d]) = Some (of_nat n * 10 powi (- 1))"
    using sudl_point [OF ip(1) fp] ip(2) by simp
  then have "Number (ip @ CHR ''.'' # [d]) = fl (of_nat n * 10 powi (- 1))"
    using Number_dd [OF ddS ne] by simp
  moreover have "0 \<le> \<lfloor>r * 10 + 1 / 2\<rfloor>" using assms(1) by simp
  then have "(of_nat n :: rat) = of_int (round (r * 10))" by (simp add: n_def round_def)
  ultimately show ?thesis
    unfolding s by (simp add: round_one_decimal_def power_int_minus_divide)
qed

lemma floor_rat_numeral: "\<lfloor>(numeral a / numeral b :: rat)\<rfloor> = numeral a div numeral b"
  using floor_divide_of_int_eq [of "numeral a" "numeral b", where ?'a = rat] by simp

lemma ceiling_rat_numeral: "\<lceil>(numeral a / numeral b :: rat)\<rceil> = - ((- numeral a) div numeral b)"
  using floor_divide_of_int_eq [of "- numeral a" "numeral b", where ?'a = rat]
  by (simp add: ceiling_def)

lemmas fl_eval = fl_def fl_pos_def round53_def ulp_exp_def ilog2_def round_even_def Let_def
  bitlen_def compute_floorlog floor_rat_numeral ceiling_rat_numeral power_int_minus

lemma fl_1: "fl 1 = Fin 1"
  by (simp add: fl_eval)

lemma fl_100: "fl 100 = Fin 100"
  by (simp add: fl_eval)

lemma Number_NaN: "Number ''NaN'' = NaN"
  by (simp add: Number_def trim_def StrWhiteSpaceChar_def StrWhiteSpaceChar2_def
      StrWhiteSpaceChar3_def NonDecimalIntegerLiteral_def
      unsigned_number_def StrUnsignedDecimalLiteral_def is_digit_def)

lemma fadd_Fin_cases: "fadd x y = Fin c \<Longrightarrow> \<exists>a b. x = Fin a \<and> y = Fin b \<and> fl (a + b) = Fin c"
  by (cases x; cases y) auto

lemma nonneg_double_fadd:
  assumes "nonneg_double x" "nonneg_double y"
  shows "nonneg_double (fadd x y)"
  using assms nonneg_double_fl by (cases x; cases y) auto

lemma le_num_Fin: "le_num x (Fin b) \<Longrightarrow> x = NegInf \<or> (\<exists>a. x = Fin a \<and> a \<le> b)"
  by (cases x) auto

lemma foldl_fadd_bounds:
  assumes "nonneg_double acc" "\<forall>x\<in>set xs. nonneg_double x" "foldl fadd acc xs = Fin t"
  shows "(\<exists>c. acc = Fin c \<and> 0 \<le> c \<and> c \<le> t) \<and> (\<forall>x\<in>set xs. \<exists>a. x = Fin a \<and> 0 \<le> a \<and> a \<le> t)"
  using assms
proof (induction xs arbitrary: acc)
  case Nil
  then show ?case by auto
next
  case (Cons x xs)
  have nx: "nonneg_double x" using Cons.prems(2) by simp
  have n': "nonneg_double (fadd acc x)" using Cons.prems(1) nx by (rule nonneg_double_fadd)
  have f: "foldl fadd (fadd acc x) xs = Fin t" using Cons.prems(3) by simp
  from Cons.IH [OF n' _ f] Cons.prems(2)
  obtain c' where c': "fadd acc x = Fin c'" "0 \<le> c'" "c' \<le> t"
    and rest: "\<forall>x\<in>set xs. \<exists>a. x = Fin a \<and> 0 \<le> a \<and> a \<le> t" by auto
  from fadd_Fin_cases [OF c'(1)] obtain c a where ca: "acc = Fin c" "x = Fin a" "fl (c + a) = Fin c'"
    by blast
  have c0: "0 \<le> c" "fl c = Fin c" using Cons.prems(1) ca(1) by auto
  have a0: "0 \<le> a" "fl a = Fin a" using nx ca(2) by auto
  have "le_num (fl c) (fl (c + a))" using c0(1) a0(1) by (intro fl_mono_nonneg) auto
  then have "c \<le> c'" by (simp add: c0(2) ca(3))
  moreover have "le_num (fl a) (fl (c + a))" using c0(1) a0(1) by (intro fl_mono_nonneg) auto
  then have "a \<le> c'" by (simp add: a0(2) ca(3))
  ultimately show ?case using c' rest ca c0(1) a0(1) by auto
qed

lemma nonneg_double_foldl:
  assumes "nonneg_double acc" "\<forall>x\<in>set xs. nonneg_double x"
  shows "nonneg_double (foldl fadd acc xs)"
  using assms by (induction xs arbitrary: acc) (auto intro: nonneg_double_fadd)

lemma nonneg_double_total: "nonneg_double (budget_total b)"
  unfolding budget_total_def
  by (intro nonneg_double_foldl) (auto simp: parseRM_nonneg fl_def)

lemma total_bounds:
  assumes "budget_total b = Fin t" "kv \<in> set b"
  shows "0 \<le> t \<and> (\<exists>a. parseRM (snd kv) = Fin a \<and> 0 \<le> a \<and> a \<le> t \<and> fl a = Fin a)"
proof -
  have n0: "nonneg_double (Fin 0)" by (simp add: fl_def)
  have all: "\<forall>x\<in>set (map parseRM (map snd b)). nonneg_double x" by (auto simp: parseRM_nonneg)
  from foldl_fadd_bounds [OF n0 all assms(1) [unfolded budget_total_def]] assms(2)
  obtain a where "parseRM (snd kv) = Fin a" "0 \<le> a" "a \<le> t" by force
  moreover have "fl a = Fin a" using parseRM_nonneg [of "snd kv"] calculation(1) by simp
  ultimately show ?thesis by auto
qed

lemma round_one_decimal_0: "round_one_decimal 0 = 0"
  by (simp add: round_one_decimal_def)

lemma percent_of_zero: "percent_of (Fin a) PosInf = Fin 0"
proof -
  have "Number (toFixed 1 (Fin 0)) = fl (round_one_decimal 0)" by (intro Number_toFixed_1) auto
  then show ?thesis by (simp add: percent_of_def fl_def round_one_decimal_0)
qed

lemma percent_of_NaN: "a = NaN \<or> t = NaN \<or> (a = PosInf \<and> t = PosInf) \<Longrightarrow> percent_of a t = NaN"
  by (cases a; cases t) (auto simp: percent_of_def Number_NaN)

lemma ratio_bounds:
  assumes "0 \<le> a" "a \<le> t" "0 < t"
  shows "\<exists>r. 0 \<le> r \<and> r \<le> 100 \<and> fmul (fdiv (Fin a) (Fin t)) (Fin 100) = Fin r"
proof -
  have q0: "0 \<le> a / t" and q1: "a / t \<le> 1" using assms by simp_all
  have "le_num (fl (a / t)) (fl 1)" using q0 q1 by (rule fl_mono_nonneg)
  then have "le_num (fl (a / t)) (Fin 1)" by (simp add: fl_1)
  with le_num_Fin fl_nonneg_cases [OF q0] obtain q where q: "fl (a / t) = Fin q" "0 \<le> q" "q \<le> 1"
    by force
  have r0: "0 \<le> q * 100" and r1: "q * 100 \<le> 100" using q by simp_all
  have "le_num (fl (q * 100)) (fl 100)" using r0 r1 by (rule fl_mono_nonneg)
  then have "le_num (fl (q * 100)) (Fin 100)" by (simp add: fl_100)
  with le_num_Fin fl_nonneg_cases [OF r0] obtain r where r: "fl (q * 100) = Fin r" "0 \<le> r" "r \<le> 100"
    by force
  have "fmul (fdiv (Fin a) (Fin t)) (Fin 100) = Fin r" using assms(3) q(1) r(1) by simp
  with r show ?thesis by blast
qed

text \<open>A positive percent comes from a finite amount over a finite positive total.\<close>

lemma percent_positive:
  assumes "nonneg_double a'" "nonneg_double t'"
    and "\<And>t. t' = Fin t \<Longrightarrow> \<exists>a. a' = Fin a \<and> 0 \<le> a \<and> a \<le> t"
    and "gt (percent_of a' t') (Fin 0)"
  shows "\<exists>a t r. a' = Fin a \<and> t' = Fin t \<and> 0 < t \<and> 0 \<le> r \<and> r \<le> 100 \<and>
           fmul (fdiv (Fin a) (Fin t)) (Fin 100) = Fin r \<and>
           percent_of a' t' = fl (round_one_decimal r)"
proof (cases t')
  case NaN
  then have "percent_of a' t' = NaN" by (intro percent_of_NaN) simp
  with assms(4) show ?thesis by (simp add: gt_def)
next
  case PosInf
  have "percent_of a' t' = NaN \<or> percent_of a' t' = Fin 0"
    using assms(1) PosInf percent_of_zero percent_of_NaN [of a' t'] by (cases a') auto
  with assms(4) show ?thesis by (auto simp: gt_def)
next
  case NegInf
  with assms(2) show ?thesis by simp
next
  case (Fin t)
  from assms(3) [OF Fin] obtain a where a: "a' = Fin a" "0 \<le> a" "a \<le> t" by blast
  have t0: "0 \<le> t" using a by simp
  have "t \<noteq> 0"
  proof
    assume "t = 0"
    with a have "a = 0" by simp
    then have "percent_of a' t' = NaN" using \<open>t = 0\<close> a(1) Fin by (simp add: percent_of_def Number_NaN)
    with assms(4) show False by (simp add: gt_def)
  qed
  with t0 have tp: "0 < t" by simp
  from ratio_bounds [OF a(2,3) tp] obtain r where
    r: "0 \<le> r" "r \<le> 100" "fmul (fdiv (Fin a) (Fin t)) (Fin 100) = Fin r" by blast
  have "r < 10 ^ 21" using r(2) by simp
  then have "percent_of a' t' = fl (round_one_decimal r)"
    unfolding percent_of_def a(1) Fin r(3) using r(1) by (intro Number_toFixed_1)
  with a Fin tp r show ?thesis by blast
qed

text \<open>Sorting with a comparator that agrees with a key.\<close>

lemma set_insert_by: "set (insert_by cmp x ys) = insert x (set ys)"
  by (induction ys) auto

lemma set_sort_by: "set (sort_by cmp xs) = set xs"
  by (induction xs) (auto simp: set_insert_by)

lemma mset_insert_by: "mset (insert_by cmp x ys) = add_mset x (mset ys)"
  by (induction ys) auto

lemma mset_sort_by: "mset (sort_by cmp xs) = mset xs"
  by (induction xs) (auto simp: mset_insert_by)

lemma sorted_insert_by:
  assumes "\<forall>a\<in>insert x (set ys). \<forall>b\<in>insert x (set ys). gt (cmp a b) (Fin 0) \<longleftrightarrow> key a < key b"
    and "sorted_wrt (\<lambda>a b. key b \<le> key a) ys"
  shows "sorted_wrt (\<lambda>a b. key b \<le> (key a :: rat)) (insert_by cmp x ys)"
  using assms
proof (induction ys)
  case Nil
  then show ?case by simp
next
  case (Cons y ys)
  show ?case
  proof (cases "gt (cmp x y) (Fin 0)")
    case True
    then have xy: "key x < key y" using Cons.prems(1) by simp
    have "sorted_wrt (\<lambda>a b. key b \<le> key a) (insert_by cmp x ys)"
      using Cons.prems by (intro Cons.IH) auto
    moreover have "\<forall>z\<in>set (insert_by cmp x ys). key z \<le> key y"
      using Cons.prems(2) xy by (auto simp: set_insert_by)
    ultimately show ?thesis using True by simp
  next
    case False
    then have "key y \<le> key x" using Cons.prems(1) by (simp add: not_less)
    moreover have "\<forall>z\<in>set ys. key z \<le> key y" using Cons.prems(2) by simp
    ultimately show ?thesis using False Cons.prems(2) by auto
  qed
qed

lemma sorted_sort_by:
  assumes "\<forall>a\<in>set xs. \<forall>b\<in>set xs. gt (cmp a b) (Fin 0) \<longleftrightarrow> key a < key b"
  shows "sorted_wrt (\<lambda>a b. key b \<le> (key a :: rat)) (sort_by cmp xs)"
  using assms
proof (induction xs)
  case Nil
  then show ?case by simp
next
  case (Cons x xs)
  have "sorted_wrt (\<lambda>a b. key b \<le> key a) (sort_by cmp xs)" using Cons.prems by (intro Cons.IH) auto
  moreover have "\<forall>a\<in>insert x (set (sort_by cmp xs)). \<forall>b\<in>insert x (set (sort_by cmp xs)).
      gt (cmp a b) (Fin 0) \<longleftrightarrow> key a < key b"
    using Cons.prems by (simp add: set_sort_by)
  ultimately show ?case using sorted_insert_by [of x "sort_by cmp xs" cmp key] by simp
qed

lemma stable_insert_by:
  assumes "\<forall>b\<in>set ys. gt (cmp x b) (Fin 0) \<longleftrightarrow> key x < (key b :: rat)"
  shows "filter (\<lambda>a. key a = k) (insert_by cmp x ys) = filter (\<lambda>a. key a = k) (x # ys)"
  using assms by (induction ys) auto

lemma stable_sort_by:
  assumes "\<forall>a\<in>set xs. \<forall>b\<in>set xs. gt (cmp a b) (Fin 0) \<longleftrightarrow> key a < (key b :: rat)"
  shows "filter (\<lambda>a. key a = k) (sort_by cmp xs) = filter (\<lambda>a. key a = k) xs"
  using assms
proof (induction xs)
  case Nil
  then show ?case by simp
next
  case (Cons x xs)
  have ih: "filter (\<lambda>a. key a = k) (sort_by cmp xs) = filter (\<lambda>a. key a = k) xs"
    using Cons.prems by (intro Cons.IH) auto
  have "\<forall>b\<in>set (sort_by cmp xs). gt (cmp x b) (Fin 0) \<longleftrightarrow> key x < key b"
    using Cons.prems by (simp add: set_sort_by)
  then have "filter (\<lambda>a. key a = k) (insert_by cmp x (sort_by cmp xs)) =
      filter (\<lambda>a. key a = k) (x # sort_by cmp xs)"
    by (rule stable_insert_by)
  then show ?case by (simp add: ih)
qed

section \<open>The bars of the breakdown\<close>

lemma percent_entry: "percent (breakdown_entry h t kv) = percent_of (parseRM (snd kv)) t"
  by (simp add: breakdown_entry_def percent_of_def Let_def)

lemma name_entry: "name (breakdown_entry h t kv) = formatCategoryName h (fst kv)"
  by (simp add: breakdown_entry_def Let_def)


text \<open>What a bar with a positive percent is made of.\<close>

lemma entry_positive:
  assumes "kv \<in> set b" "gt (percent (breakdown_entry h (budget_total b) kv)) (Fin 0)"
  shows "\<exists>a t r. parseRM (snd kv) = Fin a \<and> budget_total b = Fin t \<and> 0 < t \<and> 0 \<le> r \<and> r \<le> 100 \<and>
           fmul (fdiv (Fin a) (Fin t)) (Fin 100) = Fin r \<and>
           percent (breakdown_entry h (budget_total b) kv) = fl (round_one_decimal r)"
proof -
  have bound: "\<And>t. budget_total b = Fin t \<Longrightarrow> \<exists>a. parseRM (snd kv) = Fin a \<and> 0 \<le> a \<and> a \<le> t"
    using total_bounds [OF _ assms(1)] by blast
  from percent_positive [OF parseRM_nonneg nonneg_double_total bound]
    assms(2) [unfolded percent_entry]
  show ?thesis unfolding percent_entry by blast
qed

lemma shown_zero_total:
  assumes "strict_eq (budget_total b) (Fin 0)"
  shows "shown h b = []"
proof -
  have t: "budget_total b = Fin 0" using assms by (simp add: strict_eq_def)
  have "\<not> gt (percent (breakdown_entry h (budget_total b) kv)) (Fin 0)" if "kv \<in> set b" for kv
  proof
    assume "gt (percent (breakdown_entry h (budget_total b) kv)) (Fin 0)"
    from entry_positive [OF that this] t show False by auto
  qed
  then show ?thesis by (auto simp: shown_def filter_empty_conv)
qed

lemma breakdown_shown:
  assumes "budget project = Some b"
  shows "breakdown h (Some project) = sort_by (\<lambda>a b. fsub (percent b) (percent a)) (shown h b)"
proof (cases "strict_eq (budget_total b) (Fin 0)")
  case True
  then show ?thesis using assms by (simp add: breakdown_def shown_zero_total)
next
  case False
  then show ?thesis using assms by (simp add: breakdown_def shown_def Let_def)
qed

lemma shown_item:
  assumes "item \<in> set (shown h b)"
  shows "\<exists>kv\<in>set b. item = breakdown_entry h (budget_total b) kv \<and> gt (percent item) (Fin 0)"
  using assms by (auto simp: shown_def)

lemma round_one_decimal_bounds:
  assumes "0 \<le> r" "r \<le> 100"
  shows "0 \<le> round_one_decimal r \<and> round_one_decimal r \<le> 100"
proof -
  have "0 \<le> round (r * 10)" using assms(1) by (simp add: round_def)
  moreover have "round (r * 10) \<le> round (1000 :: rat)" using assms(2) by (intro round_mono) simp
  then have "round (r * 10) \<le> 1000" by simp
  then have "(of_int (round (r * 10)) :: rat) \<le> of_int 1000" by (simp only: of_int_le_iff)
  ultimately show ?thesis by (simp add: round_one_decimal_def)
qed

lemma shown_percent:
  assumes "item \<in> set (shown h b)"
  shows "\<exists>p. percent item = Fin p \<and> fl p = Fin p \<and> 0 < p"
proof -
  from shown_item [OF assms] obtain kv where kv: "kv \<in> set b"
    "item = breakdown_entry h (budget_total b) kv" "gt (percent item) (Fin 0)" by blast
  from entry_positive [OF kv(1) kv(3) [unfolded kv(2)]] obtain r where
    r: "0 \<le> r" "r \<le> 100" "percent item = fl (round_one_decimal r)" unfolding kv(2) by blast
  from round_one_decimal_bounds [OF r(1,2)]
  have "le_num (fl (round_one_decimal r)) (fl 100)" by (intro fl_mono_nonneg) auto
  then have "le_num (percent item) (Fin 100)" by (simp add: r(3) fl_100)
  with le_num_Fin kv(3) obtain p where p: "percent item = Fin p" "0 < p"
    by (force simp: gt_def)
  have "fl p = Fin p" using fl_idem [of "round_one_decimal r" p] r(3) p(1) by simp
  with p show ?thesis by blast
qed

lemma comparator_agrees:
  assumes "x \<in> set (shown h b)" "y \<in> set (shown h b)"
  shows "gt (fsub (percent y) (percent x)) (Fin 0) \<longleftrightarrow> percent_value x < percent_value y"
proof -
  from shown_percent [OF assms(1)] obtain p where p: "percent x = Fin p" "fl p = Fin p" by blast
  from shown_percent [OF assms(2)] obtain q where q: "percent y = Fin q" "fl q = Fin q" by blast
  have "fsub (percent y) (percent x) = fl (q - p)" by (simp add: fsub_def p(1) q(1))
  with fl_sign [OF p(2) q(2)] show ?thesis by (simp add: percent_value_def p(1) q(1))
qed


lemma percent_value_shown:
  assumes "item \<in> set (shown h b)"
  shows "percent item = Fin (percent_value item)"
  using shown_percent [OF assms] by (auto simp: percent_value_def)

section \<open>The example of the specification\<close>

lemmas str_eval = Number_def trim_def StrWhiteSpaceChar_def StrWhiteSpaceChar2_def
  StrWhiteSpaceChar3_def NonDecimalIntegerLiteral_def
  unsigned_number_def StrUnsignedDecimalLiteral_def ExponentPart_def SignedInteger_def
  all_digits_def is_digit_def digit_val_def dec_val_def base_val_def base_digit_def

lemma parse_400: "parseRM ''RM 400'' = Fin 400"
  by (simp add: parseRM_def strip_currency_def str_eval fl_eval)

lemma parse_900: "parseRM ''RM 900'' = Fin 900"
  by (simp add: parseRM_def strip_currency_def str_eval fl_eval)

lemma parse_530: "parseRM ''RM 530'' = Fin 530"
  by (simp add: parseRM_def strip_currency_def str_eval fl_eval)

lemma parse_300: "parseRM ''RM 300'' = Fin 300"
  by (simp add: parseRM_def strip_currency_def str_eval fl_eval)

lemma total_spec: "budget_total spec_budget = Fin 2130"
  by (simp add: budget_total_def spec_budget_def parse_400 parse_900 parse_530 parse_300 fl_eval)

lemmas fix_eval = toFixed_digits_def digits_of.simps digit_char_def

lemma pct_crew: "percent_of (Fin 900) (Fin 2130) = Number ''42.3''"
  by (simp add: percent_of_def fix_eval str_eval fl_eval)

lemma pct_props: "percent_of (Fin 530) (Fin 2130) = Number ''24.9''"
  by (simp add: percent_of_def fix_eval str_eval fl_eval)

lemma pct_talent: "percent_of (Fin 400) (Fin 2130) = Number ''18.8''"
  by (simp add: percent_of_def fix_eval str_eval fl_eval)

lemma pct_location: "percent_of (Fin 300) (Fin 2130) = Number ''14.1''"
  by (simp add: percent_of_def fix_eval str_eval fl_eval)

lemma num_423: "Number ''42.3'' = Fin (2976597878715187 / 70368744177664)"
  by (simp add: str_eval fl_eval)

lemma num_249: "Number ''24.9'' = Fin (3504363460047667 / 140737488355328)"
  by (simp add: str_eval fl_eval)

lemma num_188: "Number ''18.8'' = Fin (5291729562160333 / 281474976710656)"
  by (simp add: str_eval fl_eval)

lemma num_141: "Number ''14.1'' = Fin (7937594343240499 / 562949953421312)"
  by (simp add: str_eval fl_eval)

lemma entry_eq:
  "breakdown_entry h t kv =
     \<lparr>name = formatCategoryName h (fst kv), amount = ''RM '' @ toLocaleString h (parseRM (snd kv)),
      percent = percent_of (parseRM (snd kv)) t,
      color = (case lookup categoryColors (fst kv) of Some c \<Rightarrow> c | None \<Rightarrow> Text ''#888888'')\<rparr>"
  by (simp add: breakdown_entry_def percent_of_def Let_def)

lemma spec_entries:
  "map (breakdown_entry h (Fin 2130)) spec_budget =
     [\<lparr>name = Text ''Talent'', amount = ''RM '' @ toLocaleString h (Fin 400), percent = Number ''18.8'', color = Text ''#00C6FB''\<rparr>,
      \<lparr>name = Text ''Crew'', amount = ''RM '' @ toLocaleString h (Fin 900), percent = Number ''42.3'', color = Text ''#FF9900''\<rparr>,
      \<lparr>name = Text ''Props & Set'', amount = ''RM '' @ toLocaleString h (Fin 530), percent = Number ''24.9'', color = Text ''#3DD65B''\<rparr>,
      \<lparr>name = Text ''Location'', amount = ''RM '' @ toLocaleString h (Fin 300), percent = Number ''14.1'', color = Text ''#FFD233''\<rparr>]"
  by (simp add: spec_budget_def entry_eq parse_400 parse_900 parse_530 parse_300
      pct_crew pct_props pct_talent pct_location formatCategoryName_def lookup_def nameMap_def categoryColors_def)

lemma spec_sorted:
  "breakdown h (Some (project_of spec_budget)) =
     [\<lparr>name = Text ''Crew'', amount = ''RM '' @ toLocaleString h (Fin 900), percent = Number ''42.3'', color = Text ''#FF9900''\<rparr>,
      \<lparr>name = Text ''Props & Set'', amount = ''RM '' @ toLocaleString h (Fin 530), percent = Number ''24.9'', color = Text ''#3DD65B''\<rparr>,
      \<lparr>name = Text ''Talent'', amount = ''RM '' @ toLocaleString h (Fin 400), percent = Number ''18.8'', color = Text ''#00C6FB''\<rparr>,
      \<lparr>name = Text ''Location'', amount = ''RM '' @ toLocaleString h (Fin 300), percent = Number ''14.1'', color = Text ''#FFD233''\<rparr>]"
  unfolding breakdown_def project_of_def
  by (simp add: total_spec strict_eq_def spec_entries num_423 num_249 num_188 num_141 gt_def
      fsub_def fl_eval)

section \<open>The ways \<open>saveBudgetEdit\<close> ends\<close>

lemma assign_keys: "k \<in> set (map fst b) \<Longrightarrow> map fst (assign k v b) = map fst b"
  by (induction b) auto

lemma map_of_assign: "map_of (assign k v b) = (map_of b)(k \<mapsto> v)"
  by (induction b) (auto simp: fun_eq_iff)


lemma find_Some: "List.find P xs = Some k \<Longrightarrow> k \<in> set xs \<and> P k"
  by (auto simp: find_Some_iff)





lemma save_write:
  assumes "editingCategory st = Some c" "selectedProject st = Some p"
    "\<not> isNaN (Number (editAmount st))" "\<not> lt (Number (editAmount st)) (Fin 0)"
    "budget p = Some b"
    "List.find (\<lambda>key. formatCategoryName h key = name c) (map fst b) = Some k" "k \<noteq> []"
  shows "saveBudgetEdit h st =
     st\<lparr>selectedProject :=
          Some (p\<lparr>budget := Some (assign k (''RM '' @ NumberToString (Number (editAmount st))) b),
                 analysis_budget :=
                   map_option (assign_own k (''RM '' @ NumberToString (Number (editAmount st))))
                     (analysis_budget p)\<rparr>),
        editingCategory := None, editAmount := []\<rparr>"
  using assms by (simp add: saveBudgetEdit_def Let_def)

section \<open>Whole numbers as strings\<close>

text \<open>Whole numbers below \<open>2\<^sup>5\<^sup>3\<close> are doubles.\<close>

lemma round53_nat:
  assumes "0 < n" "n < 2 ^ 53"
  shows "round53 (of_nat n) = (of_nat n :: rat)"
proof -
  let ?x = "of_nat n :: rat"
  have x: "0 < ?x" "1 \<le> ?x" using assms(1) by simp_all
  have "?x < of_nat (2 ^ 53)" using assms(2) by (simp only: of_nat_less_iff)
  then have x53: "?x < 2 powi 53" by simp
  from ilog2_bounds [OF x(1)] have b: "2 powi ilog2 ?x \<le> ?x" "?x < 2 powi (ilog2 ?x + 1)" by auto
  from b(1) x53 have "(2::rat) powi ilog2 ?x < 2 powi 53" by linarith
  then have i53: "ilog2 ?x < 53" by (rule pow2_less_imp)
  have "(2::rat) powi 0 < 2 powi (ilog2 ?x + 1)" using x(2) b(2) by simp
  then have i0: "0 < ilog2 ?x + 1" by (rule pow2_less_imp)
  define k where "k = nat (52 - ilog2 ?x)"
  have ue: "ulp_exp ?x = - int k" using i53 i0 by (simp add: ulp_exp_def k_def)
  have p: "(2::rat) powi (- int k) = 1 / 2 ^ k" by (simp add: power_int_minus field_simps)
  have "?x / 2 powi (- int k) = of_int (int n * 2 ^ k)" by (simp add: p)
  then have "round_even (?x / 2 powi (- int k)) = int n * 2 ^ k"
    by (simp only: round_even_of_int)
  then show ?thesis by (simp add: round53_def ue p)
qed

lemma fl_nat:
  assumes "n < 2 ^ 53"
  shows "fl (of_nat n) = Fin (of_nat n)"
proof (cases "n = 0")
  case True
  then show ?thesis by (simp add: fl_def)
next
  case False
  have "(of_nat n :: rat) < of_nat (2 ^ 53)" using assms by (simp only: of_nat_less_iff)
  then have "(of_nat n :: rat) < 2 ^ 53" by simp
  also have "(2::rat) ^ 53 < 2 ^ 1024" by simp
  finally have "(of_nat n :: rat) < 2 ^ 1024" .
  with False round53_nat [OF _ assms] show ?thesis by (intro fl_pos_fix) auto
qed

lemma fl_pow53: "fl (2 ^ 53) = Fin (2 ^ 53)"
proof -
  have "round53 (2 ^ 53 * 2 powi 0) = 2 ^ 53 * 2 powi 0" by (rule round53_pow2) simp
  then have "round53 (2 ^ 53) = 2 ^ 53" by simp
  then show ?thesis by (intro fl_pos_fix) auto
qed

lemma fl_nat_inj:
  assumes "fl (of_nat m) = Fin (of_nat n)" "n < 2 ^ 53"
  shows "m = n"
proof (cases "m < 2 ^ 53")
  case True
  from fl_nat [OF True] assms(1) show ?thesis by simp
next
  case False
  then have "2 ^ 53 \<le> m" by simp
  then have "(of_nat (2 ^ 53) :: rat) \<le> of_nat m" by (simp only: of_nat_le_iff)
  then have "(2 ^ 53 :: rat) \<le> of_nat m" by simp
  then have "le_num (fl (2 ^ 53)) (fl (of_nat m))" by (intro fl_mono_nonneg) auto
  then have "le_num (Fin (2 ^ 53)) (Fin (of_nat n))" by (simp only: fl_pow53 assms(1))
  then have "(2 ^ 53 :: rat) \<le> of_nat n" by simp
  then have "(of_nat (2 ^ 53) :: rat) \<le> of_nat n" by simp
  then have "(2 ^ 53 :: nat) \<le> n" by (simp only: of_nat_le_iff)
  with assms(2) show ?thesis by simp
qed

text \<open>The digits of a whole number.\<close>

lemma digits_of_length:
  "0 < n \<Longrightarrow> 10 ^ (length (digits_of n) - 1) \<le> n \<and> n < 10 ^ length (digits_of n)"
proof (induction n rule: digits_of.induct)
  case (1 n)
  show ?case
  proof (cases "n < 10")
    case True
    with 1(2) show ?thesis by (simp add: digits_of.simps [of n])
  next
    case False
    then have p: "0 < n div 10" by simp
    from 1(1) [OF False p] have ih: "10 ^ (length (digits_of (n div 10)) - 1) \<le> n div 10"
      "n div 10 < 10 ^ length (digits_of (n div 10))" by auto
    have l: "length (digits_of n) = Suc (length (digits_of (n div 10)))"
      using False by (simp add: digits_of.simps [of n])
    have ne: "length (digits_of (n div 10)) \<noteq> 0" using digits_of_props [of "n div 10"] by simp
    then obtain j where j: "length (digits_of (n div 10)) = Suc j" by (cases "length (digits_of (n div 10))") auto
    from ih(1) have "10 ^ j * 10 \<le> (n div 10) * 10" by (simp add: j)
    also have "\<dots> \<le> n" by simp
    finally have a: "10 ^ Suc j \<le> n" by simp
    from ih(2) have "n div 10 + 1 \<le> 10 ^ Suc j" by (simp add: j)
    then have "(n div 10 + 1) * 10 \<le> 10 ^ Suc j * 10" by simp
    moreover have "n < (n div 10 + 1) * 10" by simp
    ultimately have b: "n < 10 ^ Suc (Suc j)" by simp
    from a b show ?thesis by (simp add: l j)
  qed
qed

lemma floorlog_digits: "0 < n \<Longrightarrow> floorlog 10 n = length (digits_of n)"
proof (induction n rule: digits_of.induct)
  case (1 n)
  show ?case
  proof (cases "n < 10")
    case True
    with 1(2) show ?thesis by (simp add: digits_of.simps [of n] compute_floorlog)
  next
    case False
    then have p: "0 < n div 10" by simp
    from 1(1) [OF False p] show ?thesis
      using False 1(2) by (simp add: digits_of.simps [of n] compute_floorlog [of 10 n])
  qed
qed

lemma ilog10_nat: "0 < n \<Longrightarrow> ilog10 (of_nat n) = int (length (digits_of n)) - 1"
  by (simp add: ilog10_def floorlog_digits)

lemma digits_of_times10: "0 < m \<Longrightarrow> digits_of (m * 10) = digits_of m @ ''0''"
  by (simp add: digits_of.simps [of "m * 10"] digit_char_def)

lemma digits_of_pow10: "0 < s \<Longrightarrow> digits_of (s * 10 ^ z) = digits_of s @ replicate z (CHR ''0'')"
proof (induction z)
  case 0
  then show ?case by simp
next
  case (Suc z)
  have "s * 10 ^ Suc z = (s * 10 ^ z) * 10" by simp
  then have "digits_of (s * 10 ^ Suc z) = digits_of ((s * 10 ^ z) * 10)" by (simp only:)
  also have "\<dots> = digits_of (s * 10 ^ z) @ ''0''" using Suc(2) by (intro digits_of_times10) simp
  also have "\<dots> = digits_of s @ replicate (Suc z) (CHR ''0'')"
    using Suc by (simp add: replicate_append_same)
  finally show ?case .
qed

lemma strip_zeros: "0 < (n::nat) \<Longrightarrow> \<exists>s z. n = s * 10 ^ z \<and> \<not> 10 dvd s \<and> 0 < s"
proof (induction n rule: less_induct)
  case (less n)
  show ?case
  proof (cases "10 dvd n")
    case False
    with less(2) have "n = n * 10 ^ 0 \<and> \<not> 10 dvd n \<and> 0 < n" by simp
    then show ?thesis by blast
  next
    case True
    then obtain m where m: "n = 10 * m" by (auto simp: dvd_def)
    with less(2) have "m < n" "0 < m" by auto
    from less(1) [OF this] obtain s z where "m = s * 10 ^ z" "\<not> 10 dvd s" "0 < s" by blast
    with m have "n = s * 10 ^ Suc z \<and> \<not> 10 dvd s \<and> 0 < s" by simp
    then show ?thesis by blast
  qed
qed

text \<open>The digits \<open>String\<close> finds for a whole number below \<open>2\<^sup>5\<^sup>3\<close>.\<close>

lemma candidates_sound:
  assumes "(s', n') \<in> set (candidates x k)"
  shows "10 ^ (k - 1) \<le> s' \<and> s' < 10 ^ k \<and> fl (of_nat s' * 10 powi (n' - int k)) = Fin x \<and>
         (n' = ilog10 x + 1 \<or> n' = ilog10 x + 2)"
  using assms by (auto simp: candidates_def Let_def simp del: filter.simps)

lemma candidates_exact:
  assumes "10 ^ (k - 1) \<le> s" "s < 10 ^ k" "x / 10 powi (ilog10 x + 1 - int k) = of_nat s"
    "fl x = Fin x"
  shows "(s, ilog10 x + 1) \<in> set (candidates x k)"
proof -
  have "of_nat s * 10 powi (ilog10 x + 1 - int k) = x"
    using assms(3) by (simp add: field_simps)
  then show ?thesis
    using assms by (simp add: candidates_def Let_def list_all_iff del: filter.simps)
qed

lemma first_candidate_skip:
  "\<forall>k\<in>set ks. candidates x k = [] \<Longrightarrow> first_candidate x (ks @ ks') = first_candidate x ks'"
  by (induction ks) auto

lemma upto_17: "[1, 2, 3, 4, 5, 6, 7, 8, 9, 10, 11, 12, 13, 14, 15, 16, 17] = [1..<18]"
  by (simp add: upt_rec)

lemma first_candidate_at:
  assumes "1 \<le> K" "K < 18" "\<forall>k. 0 < k \<and> k < K \<longrightarrow> candidates x k = []" "candidates x K = c # cs"
  shows "first_candidate x [1, 2, 3, 4, 5, 6, 7, 8, 9, 10, 11, 12, 13, 14, 15, 16, 17] = Some c"
proof -
  have "[1..<K + (18 - K)] = [1..<K] @ [K..<K + (18 - K)]"
    using assms(1) by (intro upt_add_eq_append) simp
  moreover have "K + (18 - K) = 18" using assms(2) by simp
  ultimately have "[1..<18] = [1..<K] @ [K..<18]" by simp
  also have "[K..<18] = K # [Suc K..<18]" using assms(2) by (simp add: upt_conv_Cons)
  finally have l: "[1..<18] = [1..<K] @ K # [Suc K..<18]" .
  have "first_candidate x ([1..<K] @ K # [Suc K..<18]) = first_candidate x (K # [Suc K..<18])"
    using assms(3) by (intro first_candidate_skip) auto
  then have "first_candidate x ([1..<K] @ K # [Suc K..<18]) = Some c" by (simp add: assms(4))
  then show ?thesis unfolding upto_17 l .
qed

lemma nat_powi: "e' = int e \<Longrightarrow> of_nat a * 10 powi e' = (of_nat (a * 10 ^ e) :: rat)"
  by simp

lemma first_candidate_nat:
  assumes s: "0 < s" "\<not> 10 dvd s" and n: "n = s * 10 ^ z" "n < 2 ^ 53"
  shows "first_candidate (of_nat n) [1, 2, 3, 4, 5, 6, 7, 8, 9, 10, 11, 12, 13, 14, 15, 16, 17] =
         Some (s, int (length (digits_of n)))"
proof -
  let ?x = "of_nat n :: rat"
  define K where "K = length (digits_of s)"
  define L where "L = length (digits_of n)"
  have n0: "0 < n" using s(1) n(1) by simp
  have LK: "L = K + z" using digits_of_pow10 [OF s(1), of z] by (simp add: L_def K_def n(1))
  have il: "ilog10 ?x + 1 = int L" using ilog10_nat [OF n0] by (simp add: L_def)
  have sK: "10 ^ (K - 1) \<le> s" "s < 10 ^ K" using digits_of_length [OF s(1)] by (simp_all add: K_def)
  have nL: "10 ^ (L - 1) \<le> n" "n < 10 ^ L" using digits_of_length [OF n0] by (simp_all add: L_def)
  have K1: "1 \<le> K" using digits_of_props [of s] by (simp add: K_def Suc_le_eq)
  have L17: "L < 18"
  proof (rule ccontr)
    assume "\<not> L < 18"
    then have "(10::nat) ^ 16 \<le> 10 ^ (L - 1)" by (intro power_increasing) auto
    with nL(1) n(2) show False by simp
  qed
  have flx: "fl ?x = Fin ?x" by (rule fl_nat [OF n(2)])
  have none: "candidates ?x k = []" if k: "0 < k" "k < K" for k
  proof (rule ccontr)
    assume "candidates ?x k \<noteq> []"
    then obtain s' n' where m: "(s', n') \<in> set (candidates ?x k)"
      by (cases "candidates ?x k") auto
    from candidates_sound [OF m] il
    have c: "10 ^ (k - 1) \<le> s'" "fl (of_nat s' * 10 powi (n' - int k)) = Fin ?x"
      "n' = int L \<or> n' = int L + 1" by auto
    from c(3) show False
    proof
      assume "n' = int L"
      then have e: "n' - int k = int (K - k + z)" using k LK by simp
      have "of_nat s' * 10 powi (n' - int k) = (of_nat (s' * 10 ^ (K - k + z)) :: rat)"
        by (rule nat_powi [OF e])
      with c(2) have "fl (of_nat (s' * 10 ^ (K - k + z))) = Fin (of_nat n)" by simp
      from fl_nat_inj [OF this n(2)] have "s' * 10 ^ (K - k + z) = s * 10 ^ z" by (simp add: n(1))
      then have "(s' * 10 ^ (K - k)) * 10 ^ z = s * 10 ^ z" by (simp add: power_add mult.assoc)
      then have eq: "s = s' * 10 ^ (K - k)" by simp
      obtain j where j: "K - k = Suc j" using k by (cases "K - k") auto
      from eq have "s = 10 * (s' * 10 ^ j)" by (simp add: j)
      then have "10 dvd s" by (rule dvdI)
      with s(2) show False ..
    next
      assume "n' = int L + 1"
      then have e: "n' - int k = int (L + 1 - k)" using k LK by simp
      have "of_nat s' * 10 powi (n' - int k) = (of_nat (s' * 10 ^ (L + 1 - k)) :: rat)"
        by (rule nat_powi [OF e])
      with c(2) have "fl (of_nat (s' * 10 ^ (L + 1 - k))) = Fin (of_nat n)" by simp
      from fl_nat_inj [OF this n(2)] have eq: "s' * 10 ^ (L + 1 - k) = n" .
      have a: "10 ^ (k - 1) * 10 ^ (L + 1 - k) \<le> s' * 10 ^ (L + 1 - k)"
        using c(1) by (intro mult_le_mono1)
      have "(k - 1) + (L + 1 - k) = L" using k LK by simp
      then have b: "(10::nat) ^ (k - 1) * 10 ^ (L + 1 - k) = 10 ^ L"
        by (simp only: power_add [symmetric])
      from a have "10 ^ L \<le> n" unfolding b eq .
      with nL(2) show False by simp
    qed
  qed
  have "?x / 10 powi (int L - int K) = of_nat s"
    by (simp add: LK n(1))
  then have ex: "?x / 10 powi (ilog10 ?x + 1 - int K) = of_nat s" by (simp only: il)
  from candidates_exact [OF sK ex flx] have mem: "(s, int L) \<in> set (candidates ?x K)"
    by (simp only: il)
  have uniq: "c = (s, int L)" if "c \<in> set (candidates ?x K)" for c
  proof -
    obtain s' n' where c: "c = (s', n')" by (cases c)
    from candidates_sound [OF that [unfolded c]] il
    have d: "10 ^ (K - 1) \<le> s'" "fl (of_nat s' * 10 powi (n' - int K)) = Fin ?x"
      "n' = int L \<or> n' = int L + 1" by auto
    from d(3) show ?thesis
    proof
      assume nl: "n' = int L"
      then have e: "n' - int K = int z" using LK by simp
      have "of_nat s' * 10 powi (n' - int K) = (of_nat (s' * 10 ^ z) :: rat)"
        by (rule nat_powi [OF e])
      with d(2) have "fl (of_nat (s' * 10 ^ z)) = Fin (of_nat n)" by simp
      from fl_nat_inj [OF this n(2)] have "s' * 10 ^ z = s * 10 ^ z" by (simp add: n(1))
      then have "s' = s" by simp
      with nl c show ?thesis by simp
    next
      assume "n' = int L + 1"
      then have e: "n' - int K = int (Suc z)" using LK by simp
      have "of_nat s' * 10 powi (n' - int K) = (of_nat (s' * 10 ^ Suc z) :: rat)"
        by (rule nat_powi [OF e])
      with d(2) have "fl (of_nat (s' * 10 ^ Suc z)) = Fin (of_nat n)" by simp
      from fl_nat_inj [OF this n(2)] have eq: "s' * 10 ^ Suc z = n" .
      have a: "10 ^ (K - 1) * 10 ^ Suc z \<le> s' * 10 ^ Suc z" using d(1) by (intro mult_le_mono1)
      have "(K - 1) + Suc z = L" using K1 LK by simp
      then have b: "(10::nat) ^ (K - 1) * 10 ^ Suc z = 10 ^ L" by (simp only: power_add [symmetric])
      from a have "10 ^ L \<le> n" unfolding b eq .
      with nL(2) show ?thesis by simp
    qed
  qed
  from mem obtain c cs where cc: "candidates ?x K = c # cs" by (cases "candidates ?x K") auto
  with uniq [of c] have c: "c = (s, int L)" by simp
  have K18: "K < 18" using LK L17 by simp
  have "\<forall>k. 0 < k \<and> k < K \<longrightarrow> candidates ?x k = []" using none by blast
  from first_candidate_at [OF K1 K18 this cc] show ?thesis by (simp add: c L_def)
qed

lemma digits_bound:
  assumes "0 < n" "n < 2 ^ 53"
  shows "length (digits_of n) < 18"
proof (rule ccontr)
  assume "\<not> length (digits_of n) < 18"
  then have "(10::nat) ^ 16 \<le> 10 ^ (length (digits_of n) - 1)" by (intro power_increasing) auto
  with digits_of_length [OF assms(1)] assms(2) show False by simp
qed

lemma toString_nat:
  assumes "n < 2 ^ 53"
  shows "NumberToString (Fin (of_nat n)) = digits_of n"
proof (cases "n = 0")
  case True
  then show ?thesis by (simp add: digits_of.simps digit_char_def)
next
  case False
  then have n0: "0 < n" by simp
  from strip_zeros [OF n0] obtain s z where sz: "n = s * 10 ^ z" "\<not> 10 dvd s" "0 < s" by blast
  have d: "digits_of n = digits_of s @ replicate z (CHR ''0'')"
    unfolding sz(1) by (rule digits_of_pow10 [OF sz(3)])
  then have l: "int (length (digits_of n)) - int (length (digits_of s)) = int z" by simp
  have "toString_pos (of_nat n) = layout s (int (length (digits_of n)))"
    unfolding toString_pos_def first_candidate_nat [OF sz(3,2,1) assms] by simp
  also have "\<dots> = digits_of s @ replicate z (CHR ''0'')"
    using digits_bound [OF n0 assms] l by (simp add: layout_def Let_def)
  finally show ?thesis using n0 d by simp
qed



section \<open>The values of the examples\<close>




lemma num_1500: "Number ''1500'' = Fin 1500"
  by (simp add: str_eval fl_eval)


lemma str_1500: "toString_pos 1500 = ''1500''"
  using toString_nat [of 1500] by (simp add: fix_eval)





lemmas parse_eval = parseRM_def strip_currency_def str_eval fl_eval

lemma parse_100: "parseRM ''RM 100'' = Fin 100"
  by (simp add: parse_eval)

lemma parse_0: "parseRM ''RM 0'' = Fin 0"
  by (simp add: parse_eval)

lemma parse_TBD: "parseRM ''TBD'' = Fin 0"
  by (simp add: parse_eval)


lemma parse_dots: "parseRM ''RM 1.200.50'' = NaN"
  by (simp add: parse_eval)

lemma parse_TBD_dot: "parseRM ''TBD.'' = NaN"
  by (simp add: parse_eval)

lemma total_tie: "budget_total tie_budget = Fin 200"
  by (simp add: budget_total_def tie_budget_def parse_100 fl_eval)


lemma total_part: "budget_total part_budget = Fin 100"
  by (simp add: budget_total_def part_budget_def parse_100 parse_0 fl_eval)


lemma total_dots: "budget_total dots_budget = NaN"
  by (simp add: budget_total_def dots_budget_def parse_400 parse_TBD_dot fl_eval)

lemma num_50: "Number ''50'' = Fin 50"
  by (simp add: str_eval fl_eval)

lemma pct_half: "percent_of (Fin 100) (Fin 200) = Fin 50"
  by (simp add: percent_of_def fix_eval str_eval fl_eval)

lemma pct_all: "percent_of (Fin 100) (Fin 100) = Fin 100"
  by (simp add: percent_of_def fix_eval str_eval fl_eval)


lemma pct_none: "percent_of (Fin 0) (Fin 100) = Fin 0"
  by (simp add: percent_of_def fix_eval str_eval fl_eval)

lemmas names_eval = formatCategoryName_def lookup_def nameMap_def categoryColors_def

lemma tie_entries:
  "map (breakdown_entry h (Fin 200)) tie_budget =
     [\<lparr>name = Text ''Crew'', amount = ''RM '' @ toLocaleString h (Fin 100), percent = Fin 50,
       color = Text ''#FF9900''\<rparr>,
      \<lparr>name = Text ''Props & Set'', amount = ''RM '' @ toLocaleString h (Fin 100), percent = Fin 50,
       color = Text ''#3DD65B''\<rparr>]"
  by (simp add: tie_budget_def entry_eq parse_100 pct_half names_eval)

lemma tie_breakdown:
  "breakdown h (Some (project_of tie_budget)) =
     [\<lparr>name = Text ''Crew'', amount = ''RM '' @ toLocaleString h (Fin 100), percent = Fin 50,
       color = Text ''#FF9900''\<rparr>,
      \<lparr>name = Text ''Props & Set'', amount = ''RM '' @ toLocaleString h (Fin 100), percent = Fin 50,
       color = Text ''#3DD65B''\<rparr>]"
  unfolding breakdown_def project_of_def
  by (simp add: total_tie strict_eq_def tie_entries gt_def fsub_def fl_eval)

lemma part_entries:
  "map (breakdown_entry h (Fin 100)) part_budget =
     [\<lparr>name = Text ''Crew'', amount = ''RM '' @ toLocaleString h (Fin 100), percent = Fin 100,
       color = Text ''#FF9900''\<rparr>,
      \<lparr>name = Text ''Talent'', amount = ''RM '' @ toLocaleString h (Fin 0), percent = Fin 0,
       color = Text ''#00C6FB''\<rparr>]"
  by (simp add: part_budget_def entry_eq parse_100 parse_0 pct_all pct_none names_eval)

lemma part_breakdown:
  "breakdown h (Some (project_of part_budget)) =
     [\<lparr>name = Text ''Crew'', amount = ''RM '' @ toLocaleString h (Fin 100), percent = Fin 100,
       color = Text ''#FF9900''\<rparr>]"
  unfolding breakdown_def project_of_def
  by (simp add: total_part strict_eq_def part_entries gt_def Let_def)



lemma dots_breakdown: "breakdown h (Some (project_of dots_budget)) = []"
  unfolding breakdown_def project_of_def
  by (simp add: total_dots strict_eq_def Let_def filter_empty_conv percent_entry percent_of_NaN
      gt_def)






section \<open>Properties of the budget breakdown\<close>



text \<open>
  C2: for the mapping \<open>{talent: "RM 400", crew: "RM 900", propsSet: "RM 530", location:
  "RM 300"}\<close> the total is 2130 and the breakdown shows, in this order, the bars of
  \<open>crew\<close>, \<open>propsSet\<close>, \<open>talent\<close> and \<open>location\<close>, with the percents 42.3, 24.9,
  18.8 and 14.1 (each the double that the numeral denotes), on every host.
\<close>

theorem spec_budget_breakdown:
  "budget_total spec_budget = Fin 2130 \<and>
   breakdown h (Some (project_of spec_budget)) =
     map (breakdown_entry h (Fin 2130))
       [(''crew'', ''RM 900''), (''propsSet'', ''RM 530''),
        (''talent'', ''RM 400''), (''location'', ''RM 300'')] \<and>
   map (\<lambda>item. (name item, percent item)) (breakdown h (Some (project_of spec_budget))) =
     [(Text ''Crew'', Number ''42.3''), (Text ''Props & Set'', Number ''24.9''),
      (Text ''Talent'', Number ''18.8''), (Text ''Location'', Number ''14.1'')]"
  by (simp add: total_spec spec_sorted entry_eq parse_400 parse_900 parse_530 parse_300
      pct_crew pct_props pct_talent pct_location names_eval)

text \<open>
  C3 (as stated): the display is sorted by descending percent, and two categories with
  equal percent appear in the enumeration order talent, location, propsSet,
  wardrobeMakeup, sfxVfx, crew, miscellaneous. The second half fails: for the mapping
  \<open>{crew: "RM 100", propsSet: "RM 100"}\<close> both percents are 50 and the display shows
  \<open>crew\<close> before \<open>propsSet\<close>, although the enumeration lists \<open>propsSet\<close> first.
\<close>

theorem tie_order_counterexample:
  "map fst nameMap =
     [''talent'', ''location'', ''propsSet'', ''wardrobeMakeup'', ''sfxVfx'', ''crew'',
      ''miscellaneous''] \<and>
   breakdown en_US (Some (project_of tie_budget)) =
     map (breakdown_entry en_US (Fin 200)) [(''crew'', ''RM 100''), (''propsSet'', ''RM 100'')] \<and>
   map (\<lambda>item. (name item, percent item)) (breakdown en_US (Some (project_of tie_budget))) =
     [(Text ''Crew'', Number ''50''), (Text ''Props & Set'', Number ''50'')]"
  by (simp add: tie_breakdown num_50 nameMap_def entry_eq parse_100 pct_half names_eval en_US_def)

text \<open>
  C3 (amended): for every budget mapping the display is sorted by descending percent, and
  the categories with one and the same percent appear in the order of their entries in
  the mapping (the sort is stable): for every percent \<open>p\<close>, the displayed bars with
  percent \<open>p\<close> are, in this order, the bars with percent \<open>p\<close> among the bars made of the
  mapping's entries that have a positive percent (\<open>shown\<close>).
\<close>

theorem breakdown_sorted_stable:
  assumes "budget project = Some budgetObj"
  shows "sorted_wrt (\<lambda>i j. le_num (percent j) (percent i)) (breakdown h (Some project)) \<and>
         (\<forall>p. filter (\<lambda>i. percent i = p) (breakdown h (Some project)) =
              filter (\<lambda>i. percent i = p) (shown h budgetObj))"
proof -
  let ?cmp = "\<lambda>a b. fsub (percent b) (percent a)"
  let ?xs = "shown h budgetObj"
  have agree: "\<forall>a\<in>set ?xs. \<forall>b\<in>set ?xs. gt (?cmp a b) (Fin 0) \<longleftrightarrow> percent_value a < percent_value b"
    using comparator_agrees by blast
  have bd: "breakdown h (Some project) = sort_by ?cmp ?xs" by (rule breakdown_shown [OF assms])
  have "sorted_wrt (\<lambda>a b. percent_value b \<le> percent_value a) (sort_by ?cmp ?xs)"
    using agree by (rule sorted_sort_by)
  then have "sorted_wrt (\<lambda>i j. le_num (percent j) (percent i)) (sort_by ?cmp ?xs)"
  proof (rule sorted_wrt_mono_rel [rotated])
    fix i j
    assume "i \<in> set (sort_by ?cmp ?xs)" "j \<in> set (sort_by ?cmp ?xs)"
      "percent_value j \<le> percent_value i"
    then show "le_num (percent j) (percent i)"
      using percent_value_shown [of i h budgetObj] percent_value_shown [of j h budgetObj]
      by (simp add: set_sort_by)
  qed
  moreover have "filter (\<lambda>i. percent i = p) (sort_by ?cmp ?xs) = filter (\<lambda>i. percent i = p) ?xs" for p
  proof (cases p)
    case (Fin q)
    have "filter (\<lambda>i. percent i = p) (sort_by ?cmp ?xs) =
        filter (\<lambda>i. percent_value i = q) (sort_by ?cmp ?xs)"
      using percent_value_shown [of _ h budgetObj]
      by (intro filter_cong) (auto simp: set_sort_by Fin)
    also have "\<dots> = filter (\<lambda>i. percent_value i = q) ?xs" using agree by (rule stable_sort_by)
    also have "\<dots> = filter (\<lambda>i. percent i = p) ?xs"
      using percent_value_shown [of _ h budgetObj] by (intro filter_cong) (auto simp: Fin)
    finally show ?thesis .
  next
    case NaN
    then show ?thesis
      using percent_value_shown [of _ h budgetObj] by (auto simp: filter_empty_conv set_sort_by)
  next
    case PosInf
    then show ?thesis
      using percent_value_shown [of _ h budgetObj] by (auto simp: filter_empty_conv set_sort_by)
  next
    case NegInf
    then show ?thesis
      using percent_value_shown [of _ h budgetObj] by (auto simp: filter_empty_conv set_sort_by)
  qed
  ultimately show ?thesis by (simp add: bd)
qed

theorem breakdown_sorted_stable_witness:
  "sorted_wrt (\<lambda>i j. le_num (percent j) (percent i))
     (breakdown en_US (Some (project_of tie_budget))) \<and>
   map name (filter (\<lambda>i. percent i = Number ''50'')
     (breakdown en_US (Some (project_of tie_budget)))) =
   map name (filter (\<lambda>i. percent i = Number ''50'') (shown en_US tie_budget)) \<and>
   map name (shown en_US tie_budget) = [Text ''Crew'', Text ''Props & Set'']"
proof -
  have bt: "budget (project_of tie_budget) = Some tie_budget" by (simp add: project_of_def)
  have "map name (shown en_US tie_budget) = [Text ''Crew'', Text ''Props & Set'']"
    by (simp add: shown_def total_tie tie_entries gt_def)
  with breakdown_sorted_stable [OF bt, of en_US] show ?thesis by simp
qed

text \<open>
  C4: reading the computed breakdown leaves the view's state, and with it the budget
  mapping, as it was; every displayed bar has a positive percent; the displayed bars are
  exactly the bars of the mapping's entries with a positive percent; so an entry whose
  percent is 0 has no bar in the display, and is still an entry of the mapping afterwards.
\<close>

theorem breakdown_hides_zero:
  assumes "selectedProject st = Some project" "budget project = Some budgetObj"
  shows "snd (compute_breakdown h st) = st \<and>
         (\<forall>item\<in>set (fst (compute_breakdown h st)). gt (percent item) (Fin 0)) \<and>
         mset (fst (compute_breakdown h st)) =
           mset (filter (\<lambda>item. gt (percent item) (Fin 0))
                   (map (breakdown_entry h (budget_total budgetObj)) budgetObj)) \<and>
         (\<forall>kv\<in>set budgetObj.
            percent (breakdown_entry h (budget_total budgetObj) kv) = Fin 0 \<longrightarrow>
            breakdown_entry h (budget_total budgetObj) kv \<notin> set (fst (compute_breakdown h st)) \<and>
            (\<exists>project' budgetObj'.
               selectedProject (snd (compute_breakdown h st)) = Some project' \<and>
               budget project' = Some budgetObj' \<and> kv \<in> set budgetObj'))"
proof -
  have bd: "fst (compute_breakdown h st) =
      sort_by (\<lambda>a b. fsub (percent b) (percent a)) (shown h budgetObj)"
    by (simp add: compute_breakdown_def assms(1) breakdown_shown [OF assms(2)])
  have s: "snd (compute_breakdown h st) = st" by (simp add: compute_breakdown_def)
  have a: "\<forall>item\<in>set (fst (compute_breakdown h st)). gt (percent item) (Fin 0)"
    by (auto simp: bd set_sort_by shown_def)
  have b: "mset (fst (compute_breakdown h st)) = mset (shown h budgetObj)"
    by (simp add: bd mset_sort_by)
  have c: "\<forall>kv\<in>set budgetObj.
      percent (breakdown_entry h (budget_total budgetObj) kv) = Fin 0 \<longrightarrow>
      breakdown_entry h (budget_total budgetObj) kv \<notin> set (fst (compute_breakdown h st))"
    using a by (auto simp: gt_def)
  from a b c show ?thesis by (simp add: shown_def s assms)
qed

theorem breakdown_hides_zero_witness:
  "snd (compute_breakdown en_US (view_of part_budget)) = view_of part_budget \<and>
   breakdown_entry en_US (budget_total part_budget) (''talent'', ''RM 0'') \<notin>
     set (fst (compute_breakdown en_US (view_of part_budget))) \<and>
   map name (fst (compute_breakdown en_US (view_of part_budget))) = [Text ''Crew''] \<and>
   (''talent'', ''RM 0'') \<in> set part_budget"
proof -
  have sp: "selectedProject (view_of part_budget) = Some (project_of part_budget)"
    by (simp add: view_of_def)
  have bp: "budget (project_of part_budget) = Some part_budget" by (simp add: project_of_def)
  have in_b: "(''talent'', ''RM 0'') \<in> set part_budget" by (simp add: part_budget_def)
  have z: "percent (breakdown_entry en_US (budget_total part_budget) (''talent'', ''RM 0'')) = Fin 0"
    by (simp add: percent_entry total_part parse_0 pct_none)
  from breakdown_hides_zero [OF sp bp, of en_US] in_b z
  have "snd (compute_breakdown en_US (view_of part_budget)) = view_of part_budget"
    and "breakdown_entry en_US (budget_total part_budget) (''talent'', ''RM 0'') \<notin>
     set (fst (compute_breakdown en_US (view_of part_budget)))" by blast+
  moreover have "map name (fst (compute_breakdown en_US (view_of part_budget))) = [Text ''Crew'']"
    by (simp add: compute_breakdown_def sp part_breakdown)
  ultimately show ?thesis using in_b by simp
qed

section \<open>Properties of \<open>parseRM\<close> and of the currency strings\<close>

text \<open>What \<open>parseRM\<close> returns, by the digits and points its argument holds.\<close>

lemma parseRM_cases:
  "(strip_currency val = [] \<longrightarrow> parseRM val = Fin 0) \<and>
   (parseRM val = NaN \<longleftrightarrow> strip_currency val = ''.'' \<or> 2 \<le> dots (strip_currency val)) \<and>
   parseRM val \<noteq> NegInf \<and>
   (\<forall>r. parseRM val = Fin r \<longrightarrow> 0 \<le> r \<and> fl r = Fin r)"
proof -
  have "strip_currency val = [] \<longrightarrow> parseRM val = Fin 0" by (simp add: parseRM_eq)
  moreover have "parseRM val \<noteq> NegInf \<and> (\<forall>r. parseRM val = Fin r \<longrightarrow> 0 \<le> r \<and> fl r = Fin r)"
    using parseRM_nonneg [of val] by (cases "parseRM val") auto
  ultimately show ?thesis using parseRM_NaN_iff [of val] by blast
qed

text \<open>
  C5: \<open>parseRM\<close> is to return a non-negative amount for every string, 0 for a string
  that is no number such as \<open>TBD\<close>. The code returns 0 for \<open>TBD\<close>, but for \<open>TBD.\<close>,
  where only a point is left of the text, and for \<open>RM 1.200.50\<close>, where two points are
  left, it returns \<open>NaN\<close>; the total of a mapping with such an entry is \<open>NaN\<close> and its
  breakdown is empty.
\<close>

theorem parseRM_not_a_number:
  "parseRM ''TBD'' = Fin 0 \<and>
   parseRM ''TBD.'' = NaN \<and>
   parseRM ''RM 1.200.50'' = NaN \<and>
   budget_total dots_budget = NaN \<and>
   breakdown en_US (Some (project_of dots_budget)) = []"
  by (simp add: parse_TBD parse_TBD_dot parse_dots total_dots dots_breakdown)




section \<open>Properties of \<open>uploadFile\<close>\<close>

lemma fileExtension_fountain: "fileExtension fountain_file = ''.fountain''"
  by (simp add: fileExtension_def fountain_file_def toLowerCase_def toLowerCase_char_def)

lemma split_no_sep: "sep \<notin> set s \<Longrightarrow> split sep s = [s]"
  by (induction s) auto

lemma split_append:
  assumes "sep \<notin> set ext"
  shows "\<exists>w ws. split sep (stem @ sep # ext) = (w # ws) @ [ext]"
proof (induction stem)
  case Nil
  have "split sep ([] @ sep # ext) = ([] # []) @ [ext]"
    using assms by (simp add: split_no_sep)
  then show ?case by blast
next
  case (Cons c stem)
  then obtain w ws where pre: "split sep (stem @ sep # ext) = (w # ws) @ [ext]" by blast
  show ?case
  proof (cases "c = sep")
    case True
    with pre have "split sep ((c # stem) @ sep # ext) = ([] # w # ws) @ [ext]" by simp
    then show ?thesis by blast
  next
    case False
    with pre have "split sep ((c # stem) @ sep # ext) = ((c # w) # ws) @ [ext]" by simp
    then show ?thesis by blast
  qed
qed

lemma last_split: "sep \<notin> set ext \<Longrightarrow> last (split sep (stem @ sep # ext)) = ext"
  using split_append [of sep ext stem] by auto

lemma fileExtension_dot:
  assumes "file_name file = stem @ ''.'' @ ext" "CHR ''.'' \<notin> set ext"
  shows "fileExtension file = ''.'' @ toLowerCase ext"
  using last_split [OF assms(2), of stem] by (simp add: fileExtension_def assms(1))

text \<open>
  C7 (as stated): a file whose content type and extension are both outside PDF/TXT/FDX is
  refused and no analysis request is sent. It fails for \<open>script.fountain\<close> with an empty
  declared type: the extension is none of \<open>.pdf\<close>, \<open>.txt\<close>, \<open>.fdx\<close>, yet the request
  is sent and the unsupported-format message is not shown.
\<close>

theorem upload_fountain_counterexample:
  "fileExtension fountain_file \<notin> set [''.pdf'', ''.txt'', ''.fdx''] \<and>
   file_type fountain_file \<notin> set [''application/pdf'', ''text/plain''] \<and>
   requests (uploadFile always_rejects fountain_file empty_panel) = [fountain_file] \<and>
   unsupported_message \<notin> set (messages (uploadFile always_rejects fountain_file empty_panel))"
  using fileExtension_fountain
  by (simp add: uploadFile_def allowedExtensions_def allowedTypes_def
      always_rejects_def empty_panel_def Let_def unsupported_message_def uploaded_message_def
      analysis_failed_message_def fountain_file_def)

text \<open>
  C7 (amended): take a file whose name contains a dot, and call extension the lower-cased
  text after the last dot, with the dot before it. When the declared content type is none
  of \<open>application/pdf\<close>, \<open>text/plain\<close>, \<open>text/x-fountain\<close> and the extension is none
  of \<open>.pdf\<close>, \<open>.txt\<close>, \<open>.fountain\<close>, \<open>.fdx\<close>, \<open>uploadFile\<close> only appends the
  unsupported-format message: no analysis request is sent and nothing else changes. When
  the extension is \<open>.pdf\<close>, \<open>.txt\<close>, \<open>.fdx\<close> or \<open>.fountain\<close> the file is accepted:
  the upload is announced and exactly one analysis request, for this file, is sent.
\<close>

theorem uploadFile_format_gate:
  assumes "file_name file = stem @ ''.'' @ ext" and "CHR ''.'' \<notin> set ext"
  shows
    "(file_type file \<notin> {''application/pdf'', ''text/plain'', ''text/x-fountain''} \<and>
      ''.'' @ toLowerCase ext \<notin> {''.pdf'', ''.txt'', ''.fountain'', ''.fdx''} \<longrightarrow>
        uploadFile api file st = st\<lparr>messages := messages st @ [unsupported_message]\<rparr> \<and>
        requests (uploadFile api file st) = requests st) \<and>
     (''.'' @ toLowerCase ext \<in> {''.pdf'', ''.txt'', ''.fdx'', ''.fountain''} \<longrightarrow>
        requests (uploadFile api file st) = requests st @ [file] \<and>
        take (Suc (length (messages st))) (messages (uploadFile api file st)) =
          messages st @ [uploaded_message file])"
  using fileExtension_dot [OF assms]
  by (auto simp add: uploadFile_def Let_def allowedTypes_def allowedExtensions_def
      split: upload_response.split)

theorem uploadFile_format_gate_witness:
  "uploadFile always_rejects docx_file empty_panel =
     empty_panel\<lparr>messages := [unsupported_message]\<rparr> \<and>
   requests (uploadFile always_rejects docx_file empty_panel) = [] \<and>
   requests (uploadFile always_rejects pdf_file empty_panel) = [pdf_file]"
proof -
  have a: "file_name docx_file = ''notes'' @ ''.'' @ ''docx''"
    "file_type docx_file = ''application/msword''"
    by (simp_all add: docx_file_def)
  have b: "file_name pdf_file = ''Draft.v2'' @ ''.'' @ ''PDF''"
    by (simp add: pdf_file_def)
  have l: "toLowerCase ''docx'' = ''docx''" "toLowerCase ''PDF'' = ''pdf''"
    by (simp_all add: toLowerCase_def toLowerCase_char_def)
  show ?thesis
    using uploadFile_format_gate [OF a(1), of always_rejects empty_panel]
      uploadFile_format_gate [OF b, of always_rejects empty_panel]
    by (simp add: a(2) l empty_panel_def)
qed

section \<open>Properties of \<open>saveBudgetEdit\<close>\<close>



text \<open>
  C9: in a successful edit (a bar is being edited, the entered amount \<open>n\<close> is a number
  and not negative, and \<open>k\<close> is the first key whose display name is the bar's name) the
  budget mapping keeps its keys and their order, the entry of \<open>k\<close> becomes \<open>RM\<close>, a
  space and \<open>n\<close> as \<open>String\<close> prints it, and every other key keeps its value; the
  project's title is unchanged, and in the analysis data's budget, when there is one,
  likewise only the entry of \<open>k\<close> can change (it becomes the same string, unless \<open>k\<close>
  is \<open>__proto__\<close> and no own property there).
\<close>

theorem saveBudgetEdit_frame:
  assumes "editingCategory st = Some c" "selectedProject st = Some p" "budget p = Some b"
    "\<not> isNaN (Number (editAmount st))" "\<not> lt (Number (editAmount st)) (Fin 0)"
    "List.find (\<lambda>key. formatCategoryName h key = name c) (map fst b) = Some k" "k \<noteq> []"
  shows "\<exists>p' b'. selectedProject (saveBudgetEdit h st) = Some p' \<and> budget p' = Some b' \<and>
           formatCategoryName h k = name c \<and>
           map fst b' = map fst b \<and>
           map_of b' k = Some (''RM '' @ NumberToString (Number (editAmount st))) \<and>
           (\<forall>k'. k' \<noteq> k \<longrightarrow> map_of b' k' = map_of b k') \<and>
           title p' = title p \<and>
           (analysis_budget p = None \<longrightarrow> analysis_budget p' = None) \<and>
           (\<forall>m. analysis_budget p = Some m \<longrightarrow>
                (\<exists>m'. analysis_budget p' = Some m' \<and>
                      (k = ''__proto__'' \<and> m k = None \<or>
                       m' k = Some (''RM '' @ NumberToString (Number (editAmount st)))) \<and>
                      (\<forall>k'. k' \<noteq> k \<longrightarrow> m' k' = m k')))"
proof -
  let ?v = "''RM '' @ NumberToString (Number (editAmount st))"
  from find_Some [OF assms(6)] have k: "k \<in> set (map fst b)" "formatCategoryName h k = name c"
    by auto
  have s: "selectedProject (saveBudgetEdit h st) =
      Some (p\<lparr>budget := Some (assign k ?v b),
              analysis_budget := map_option (assign_own k ?v) (analysis_budget p)\<rparr>)"
    by (simp add: save_write [OF assms(1,2,4,5,3,6,7)])
  show ?thesis
    unfolding s using k by (auto simp: assign_keys map_of_assign assign_own_def)
qed

theorem saveBudgetEdit_frame_witness:
  "\<exists>p' b'. selectedProject (saveBudgetEdit en_US (edit_state crew_bar ''1500'')) = Some p' \<and>
      budget p' = Some b' \<and>
      map fst b' = [''talent'', ''crew'', ''propsSet'', ''location''] \<and>
      map_of b' ''crew'' = Some ''RM 1500'' \<and>
      map_of b' ''talent'' = Some ''RM 400'' \<and>
      map_of b' ''propsSet'' = Some ''RM 530'' \<and>
      map_of b' ''location'' = Some ''RM 300''"
proof -
  let ?st = "edit_state crew_bar ''1500''"
  have h1: "editingCategory ?st = Some crew_bar" by (simp add: edit_state_def)
  have h2: "selectedProject ?st = Some (project_of spec_budget)" by (simp add: edit_state_def)
  have h3: "budget (project_of spec_budget) = Some spec_budget" by (simp add: project_of_def)
  have n: "Number (editAmount ?st) = Fin 1500" by (simp add: edit_state_def num_1500)
  have h4: "\<not> isNaN (Number (editAmount ?st))" by (simp add: n isNaN_def)
  have h5: "\<not> lt (Number (editAmount ?st)) (Fin 0)" by (simp add: n)
  have h6: "List.find (\<lambda>key. formatCategoryName en_US key = name crew_bar) (map fst spec_budget) =
      Some ''crew''"
    by (simp add: crew_bar_def spec_budget_def names_eval)
  have h7: "''crew'' \<noteq> []" by simp
  from saveBudgetEdit_frame [OF h1 h2 h3 h4 h5 h6 h7]
  obtain p' b' where r: "selectedProject (saveBudgetEdit en_US ?st) = Some p'" "budget p' = Some b'"
    "map fst b' = map fst spec_budget"
    "map_of b' ''crew'' = Some (''RM '' @ NumberToString (Number (editAmount ?st)))"
    "\<forall>k'. k' \<noteq> ''crew'' \<longrightarrow> map_of b' k' = map_of spec_budget k'" by blast
  have "map_of b' ''crew'' = Some ''RM 1500''" using r(4) by (simp add: n str_1500)
  moreover have "map_of b' ''talent'' = Some ''RM 400''" "map_of b' ''propsSet'' = Some ''RM 530''"
    "map_of b' ''location'' = Some ''RM 300''"
    using r(5) by (simp_all add: spec_budget_def)
  moreover have "map fst b' = [''talent'', ''crew'', ''propsSet'', ''location'']"
    using r(3) by (simp add: spec_budget_def)
  ultimately show ?thesis using r(1,2) by (intro exI [of _ p'] exI [of _ b']) simp
qed

section \<open>Properties of the auth store\<close>

lemma isAuthenticated_setAuth: "isAuthenticated (setAuth s token u st) = (token \<noteq> [])"
  by (simp add: isAuthenticated_def setAuth_def)

lemma isAuthenticated_logout: "\<not> isAuthenticated (logout st)"
  by (simp add: isAuthenticated_def logout_def)

lemma accessToken_updateUser: "accessToken (updateUser s p st) = accessToken st"
  by (simp add: updateUser_def split: option.split)

text \<open>
  C10 (as stated): \<open>isAuthenticated\<close> holds exactly when the stored token is non-null, and
  is true after any \<open>setAuth\<close>. It fails for the empty token: after \<open>setAuth\<close> with
  the empty string the token is stored (non-null) and \<open>isAuthenticated\<close> is false.
\<close>

theorem auth_nonnull_token_counterexample:
  "accessToken (setAuth demo_stringify [] demo_user empty_store) \<noteq> None \<and>
   \<not> isAuthenticated (setAuth demo_stringify [] demo_user empty_store)"
  by (simp add: isAuthenticated_def setAuth_def)

text \<open>
  C10 (amended): in every state \<open>isAuthenticated\<close> holds exactly when the stored token is
  non-null and non-empty. After \<open>setAuth(token, user)\<close> the token and the user are both
  set and \<open>isAuthenticated\<close> is true exactly when \<open>token\<close> is non-empty; after
  \<open>logout\<close> it is false and the token and the user are both null; \<open>updateUser\<close> leaves
  the token alone.
\<close>

theorem auth_store_invariant:
  "isAuthenticated st = (accessToken st \<noteq> None \<and> accessToken st \<noteq> Some []) \<and>
   accessToken (setAuth s token u st) = Some token \<and>
   user (setAuth s token u st) = Some u \<and>
   isAuthenticated (setAuth s token u st) = (token \<noteq> []) \<and>
   \<not> isAuthenticated (logout st) \<and>
   accessToken (logout st) = None \<and>
   user (logout st) = None \<and>
   isAuthenticated (updateUser s p st) = isAuthenticated st"
proof -
  have "isAuthenticated st = (accessToken st \<noteq> None \<and> accessToken st \<noteq> Some [])"
    by (simp add: isAuthenticated_def split: option.split)
  moreover have "accessToken (setAuth s token u st) = Some token \<and> user (setAuth s token u st) = Some u"
    by (simp add: setAuth_def)
  moreover have "accessToken (logout st) = None \<and> user (logout st) = None"
    by (simp add: logout_def)
  moreover have "isAuthenticated (updateUser s p st) = isAuthenticated st"
    by (simp add: isAuthenticated_def accessToken_updateUser)
  ultimately show ?thesis
    using isAuthenticated_setAuth [of s token u st] isAuthenticated_logout [of st] by simp
qed

theorem auth_store_invariant_witness:
  "isAuthenticated (setAuth demo_stringify ''tok'' demo_user empty_store) \<and>
   user (setAuth demo_stringify ''tok'' demo_user empty_store) = Some demo_user \<and>
   \<not> isAuthenticated (logout (setAuth demo_stringify ''tok'' demo_user empty_store))"
  using auth_store_invariant [of "setAuth demo_stringify ''tok'' demo_user empty_store"
      demo_stringify "''tok''" demo_user]
    auth_store_invariant [of empty_store demo_stringify "''tok''" demo_user]
  by simp

end
